theory Spec2Isabelle
  imports Main "HOL-Library.Word"
begin

unbundle bit_operations_syntax

section \<open>Data model of \<^verbatim>\<open>main.go\<close>\<close>

text \<open>
  Bytes are 8-bit words. A Go \<^verbatim>\<open>string\<close> is an immutable byte sequence and is modelled as
  \<^typ>\<open>string\<close>; a \<^verbatim>\<open>[]byte\<close> is a list of bytes (a nil slice and an empty slice are both the
  empty list, and slice capacity is not modelled). Go's \<^verbatim>\<open>int\<close> is taken to be 64 bits wide:
  the lengths of slices that exist in memory and the sums computed from them stay below
  \<open>2^63\<close>, so lengths and byte counts are natural numbers. The conversions \<^verbatim>\<open>uint8(...)\<close>
  and \<^verbatim>\<open>uint32(...)\<close> and the arithmetic of type \<^verbatim>\<open>uint8\<close> wrap around, as words do.
\<close>

type_synonym byte = "8 word"

definition LInsert :: byte where "LInsert = 1"
definition LDelete :: byte where "LDelete = 2"
definition LUpdate :: byte where "LUpdate = 3"
definition LRead :: byte where "LRead = 4"
definition LCommit :: byte where "LCommit = 5"
definition LAbort :: byte where "LAbort = 6"

text \<open>
  The error values of the program. The three sentinel errors are the package variables;
  the three \<^verbatim>\<open>fmt.Errorf\<close> errors carry the action they print; \<open>ErrIO\<close> is an error
  returned by the operating system for a write or a sync, identified by a number. A
  run-time panic is an outcome as well: \<open>PanicSliceBounds lo hi\<close> is the panic of a
  slice expression \<^verbatim>\<open>b[lo:hi]\<close> with \<open>hi < lo\<close>, \<open>PanicLog e\<close> is \<^verbatim>\<open>log.Panic(e)\<close>.
\<close>

datatype error =
    ErrExist
  | ErrNotExist
  | ErrBufferShort
  | ErrNotSupported byte
  | ErrUnexpectedWriteSet byte
  | ErrUnexpected byte
  | ErrIO nat
  | PanicSliceBounds nat nat
  | PanicLog error

record Record =
  Key :: string
  Value :: "byte list"

record RecordLog =
  Action :: byte
  Rec :: Record

text \<open>\<^verbatim>\<open>[]byte(s)\<close> and \<^verbatim>\<open>string(b)\<close>.\<close>

definition bytes_of_string :: "string \<Rightarrow> byte list" where
  "bytes_of_string s = map (\<lambda>c. word_of_nat (of_char c)) s"

definition string_of_bytes :: "byte list \<Rightarrow> string" where
  "string_of_bytes b = map (\<lambda>w. char_of (unat w)) b"

text \<open>
  The built-in \<^verbatim>\<open>copy(dst, src)\<close> overwrites the first \<open>min (len dst) (len src)\<close> elements of
  \<open>dst\<close>; the result is the contents of \<open>dst\<close> afterwards.
\<close>

definition copy :: "'a list \<Rightarrow> 'a list \<Rightarrow> 'a list" where
  "copy dst src = take (length dst) src @ drop (length src) dst"

text \<open>
  \<^verbatim>\<open>binary.BigEndian.PutUint32(b, v)\<close> and \<^verbatim>\<open>binary.BigEndian.Uint32(b)\<close> of the standard
  library, on a slice of at least four bytes (every call of the program passes one).
\<close>

definition PutUint32 :: "byte list \<Rightarrow> 32 word \<Rightarrow> byte list" where
  "PutUint32 b v =
     copy b [ucast (drop_bit 24 v), ucast (drop_bit 16 v), ucast (drop_bit 8 v), ucast v]"

definition Uint32 :: "byte list \<Rightarrow> 32 word" where
  "Uint32 b =
     ucast (b ! 3) OR push_bit 8 (ucast (b ! 2)) OR push_bit 16 (ucast (b ! 1))
       OR push_bit 24 (ucast (b ! 0))"

section \<open>The record codec\<close>

text \<open>
  \<^verbatim>\<open>Record.Serialize\<close> writes into the caller's buffer: the model returns the buffer
  afterwards together with the pair \<^verbatim>\<open>(int, error)\<close> as a sum. A write through a sub-slice
  \<^verbatim>\<open>buf[i:]\<close> is a write into \<open>drop i buf\<close> put back behind \<open>take i buf\<close>.
\<close>

definition Record_Serialize :: "Record \<Rightarrow> byte list \<Rightarrow> byte list \<times> (error + nat)" where
  "Record_Serialize r buf =
     (let key = bytes_of_string (Key r);
          val = Value r;
          total = 5 + length key + length val
      in if length buf < total then (buf, Inl ErrBufferShort)
         else
           let buf1 = buf[0 := word_of_nat (length key)];
               buf2 = take 1 buf1 @ PutUint32 (drop 1 buf1) (word_of_nat (length (Value r)));
               buf3 = take 5 buf2 @ copy (drop 5 buf2) key;
               buf4 = take (5 + length key) buf3 @ copy (drop (5 + length key) buf3) (Value r)
           in (buf4, Inr total))"

text \<open>
  \<^verbatim>\<open>Record.Deserialize\<close> overwrites its receiver: the model takes the receiver and returns
  it afterwards. \<^verbatim>\<open>keyLen\<close> has type \<^verbatim>\<open>uint8\<close>, so the two index expressions
  \<^verbatim>\<open>5+keyLen\<close> are computed in \<^verbatim>\<open>uint8\<close> and wrap around at 256, while \<^verbatim>\<open>total\<close> is computed
  in \<^verbatim>\<open>int\<close>. The slice expression \<^verbatim>\<open>buf[5 : 5+keyLen]\<close> panics when its upper index is
  below 5; the upper index never exceeds \<open>total\<close>, which is at most the length of the
  buffer at that point, and the same holds for the lower index of \<^verbatim>\<open>buf[5+keyLen:total]\<close>.
\<close>

definition Record_Deserialize :: "Record \<Rightarrow> byte list \<Rightarrow> Record \<times> (error + nat)" where
  "Record_Deserialize r buf =
     (if length buf < 5 then (r, Inl ErrBufferShort)
      else
        let keyLen = buf ! 0;
            valueLen = Uint32 (drop 1 buf);
            total = 5 + unat keyLen + unat valueLen
        in if length buf < total then (r, Inl ErrBufferShort)
           else
             let hi = unat (5 + keyLen)
             in if hi < 5 then (r, Inl (PanicSliceBounds 5 hi))
                else
                  let r1 = r\<lparr>Key := string_of_bytes (take (hi - 5) (drop 5 buf))\<rparr>;
                      r2 = r1\<lparr>Value := replicate (unat valueLen) 0\<rparr>;
                      r3 = r2\<lparr>Value := copy (Value r2) (take (total - hi) (drop hi buf))\<rparr>
                  in (r3, Inr total))"

section \<open>The log entry codec\<close>

definition RecordLog_Serialize :: "RecordLog \<Rightarrow> byte list \<Rightarrow> byte list \<times> (error + nat)" where
  "RecordLog_Serialize r buf =
     (if length buf < 1 then (buf, Inl ErrBufferShort)
      else if LRead < Action r then (buf[0 := Action r], Inr 1)
      else
        case Record_Serialize (Rec r) (drop 1 buf) of
          (rest, Inl err) \<Rightarrow> (take 1 buf @ rest, Inl err)
        | (rest, Inr n) \<Rightarrow> ((take 1 buf @ rest)[0 := Action r], Inr (1 + n)))"

definition RecordLog_Deserialize :: "RecordLog \<Rightarrow> byte list \<Rightarrow> RecordLog \<times> (error + nat)" where
  "RecordLog_Deserialize r buf =
     (if length buf < 1 then (r, Inl ErrBufferShort)
      else
        let r1 = r\<lparr>Action := buf ! 0\<rparr>
        in if Action r1 = LCommit then (r1, Inr 1)
           else if Action r1 = LInsert \<or> Action r1 = LUpdate \<or> Action r1 = LDelete then
             (case Record_Deserialize (Rec r1) (drop 1 buf) of
                (rec', Inl err) \<Rightarrow> (r1\<lparr>Rec := rec'\<rparr>, Inl err)
              | (rec', Inr n) \<Rightarrow> (r1\<lparr>Rec := rec'\<rparr>, Inr (1 + n)))
           else (r1, Inl (ErrNotSupported (Action r1))))"

section \<open>The write-ahead log file\<close>

text \<open>
  \<^verbatim>\<open>txn.wal\<close> is a file opened for appending. The model keeps the bytes that have reached
  the file through this handle. Whether a \<^verbatim>\<open>Write\<close> or a \<^verbatim>\<open>Sync\<close> succeeds is decided by the
  operating system: each call takes its outcome from a script of outcomes, one per call,
  and succeeds when the script is exhausted. A successful \<^verbatim>\<open>Write\<close> appends all of its
  bytes; a failed one has appended some prefix of them and returns the system's error.
\<close>

datatype io_outcome = IoOk | IoFail nat nat

fun next_outcome :: "io_outcome list \<Rightarrow> io_outcome \<times> io_outcome list" where
  "next_outcome [] = (IoOk, [])"
| "next_outcome (out # io) = (out, io)"

fun File_Write :: "io_outcome \<Rightarrow> byte list \<Rightarrow> byte list \<Rightarrow> byte list \<times> error option" where
  "File_Write IoOk f b = (f @ b, None)"
| "File_Write (IoFail errno k) f b = (f @ take k b, Some (ErrIO errno))"

fun File_Sync :: "io_outcome \<Rightarrow> error option" where
  "File_Sync IoOk = None"
| "File_Sync (IoFail errno k) = Some (ErrIO errno)"

section \<open>The transaction engine\<close>

record Txn =
  wal :: "byte list"
  db :: "string \<rightharpoonup> Record"
  writeSet :: "string \<rightharpoonup> RecordLog"

definition NewTxn :: "byte list \<Rightarrow> Txn" where
  "NewTxn w = \<lparr>wal = w, db = Map.empty, writeSet = Map.empty\<rparr>"

definition Txn_Read :: "Txn \<Rightarrow> string \<Rightarrow> error + byte list" where
  "Txn_Read txn key =
     (case writeSet txn key of
        Some r \<Rightarrow>
          if Action r = LDelete then Inl ErrNotExist
          else if Action r = LInsert \<or> Action r = LUpdate then Inr (Value (Rec r))
          else Inl (ErrUnexpectedWriteSet (Action r))
      | None \<Rightarrow>
          (case db txn key of
             None \<Rightarrow> Inl ErrNotExist
           | Some r \<Rightarrow> Inr (Value r)))"

definition clone :: "byte list \<Rightarrow> byte list" where
  "clone v = copy (replicate (length v) 0) v"

definition Txn_Insert :: "Txn \<Rightarrow> string \<Rightarrow> byte list \<Rightarrow> Txn \<times> error option" where
  "Txn_Insert txn key val =
     (case writeSet txn key of
        Some r \<Rightarrow>
          if Action r \<noteq> LDelete then (txn, Some ErrExist)
          else
            let r1 = r\<lparr>Action := LUpdate\<rparr>;
                r2 = r1\<lparr>Rec := (Rec r1)\<lparr>Value := clone val\<rparr>\<rparr>
            in (txn\<lparr>writeSet := (writeSet txn)(Key (Rec r2) \<mapsto> r2)\<rparr>, None)
      | None \<Rightarrow>
          (case db txn key of
             Some _ \<Rightarrow> (txn, Some ErrExist)
           | None \<Rightarrow>
               (txn\<lparr>writeSet := (writeSet txn)
                  (key \<mapsto> \<lparr>Action = LInsert, Rec = \<lparr>Key = key, Value = clone val\<rparr>\<rparr>)\<rparr>,
                None)))"

definition Txn_Update :: "Txn \<Rightarrow> string \<Rightarrow> byte list \<Rightarrow> Txn \<times> error option" where
  "Txn_Update txn key val =
     (case writeSet txn key of
        Some r \<Rightarrow>
          if Action r = LDelete then (txn, Some ErrNotExist)
          else
            let r1 = r\<lparr>Rec := (Rec r)\<lparr>Value := clone val\<rparr>\<rparr>
            in (txn\<lparr>writeSet := (writeSet txn)(Key (Rec r1) \<mapsto> r1)\<rparr>, None)
      | None \<Rightarrow>
          (case db txn key of
             None \<Rightarrow> (txn, Some ErrNotExist)
           | Some r \<Rightarrow>
               (txn\<lparr>writeSet := (writeSet txn)
                  (Key r \<mapsto> \<lparr>Action = LUpdate, Rec = \<lparr>Key = Key r, Value = clone val\<rparr>\<rparr>)\<rparr>,
                None)))"

definition Txn_Delete :: "Txn \<Rightarrow> string \<Rightarrow> Txn \<times> error option" where
  "Txn_Delete txn key =
     (case writeSet txn key of
        Some r \<Rightarrow>
          if Action r = LDelete then (txn, Some ErrNotExist)
          else if Action r = LInsert then
            (txn\<lparr>writeSet := (writeSet txn)(key := None)\<rparr>, None)
          else
            let r1 = r\<lparr>Rec := (Rec r)\<lparr>Value := []\<rparr>\<rparr>;
                r2 = r1\<lparr>Action := LDelete\<rparr>
            in (txn\<lparr>writeSet := (writeSet txn)(Key (Rec r2) \<mapsto> r2)\<rparr>, None)
      | None \<Rightarrow>
          (case db txn key of
             None \<Rightarrow> (txn, Some ErrNotExist)
           | Some r \<Rightarrow>
               (txn\<lparr>writeSet := (writeSet txn)
                  (Key r \<mapsto> \<lparr>Action = LDelete, Rec = \<lparr>Key = Key r, Value = []\<rparr>\<rparr>)\<rparr>,
                None)))"

text \<open>
  Go visits the entries of a map in an order it does not specify, each entry once. Every
  iteration over \<^verbatim>\<open>txn.writeSet\<close> therefore takes the order of the visit as a list of keys;
  the theorems below hold for every list that enumerates the keys of the map without
  repetition. A key that is not (or no longer) in the map is not visited.

  The first loop of \<^verbatim>\<open>Commit\<close>: the index \<^verbatim>\<open>i\<close> is never changed, so \<^verbatim>\<open>buf[i:]\<close> is the
  whole buffer. The loop returns only on \<^verbatim>\<open>ErrBufferShort\<close>; for any other result of
  \<^verbatim>\<open>Serialize\<close> it writes \<^verbatim>\<open>buf[:n]\<close>, where \<^verbatim>\<open>n\<close> is 0 beside an error.
\<close>

fun log_loop ::
  "(string \<rightharpoonup> RecordLog) \<Rightarrow> string list \<Rightarrow> io_outcome list \<Rightarrow> byte list \<Rightarrow> byte list
     \<Rightarrow> io_outcome list \<times> byte list \<times> byte list \<times> error option" where
  "log_loop ws [] io buf f = (io, buf, f, None)"
| "log_loop ws (key # ks) io buf f =
     (case ws key of
        None \<Rightarrow> log_loop ws ks io buf f
      | Some r \<Rightarrow>
          (case RecordLog_Serialize r buf of
             (buf', res) \<Rightarrow>
               if res = Inl ErrBufferShort then (io, buf', f, Some ErrBufferShort)
               else
                 let n = (case res of Inl _ \<Rightarrow> 0 | Inr n \<Rightarrow> n)
                 in (case File_Write (fst (next_outcome io)) f (take n buf') of
                       (f', Some err) \<Rightarrow> (snd (next_outcome io), buf', f', Some err)
                     | (f', None) \<Rightarrow> log_loop ws ks (snd (next_outcome io)) buf' f')))"

text \<open>
  The second loop of \<^verbatim>\<open>Commit\<close> writes the write-set back to the db. Reading a missing key
  of a Go map gives the zero \<^verbatim>\<open>Record\<close>.
\<close>

fun apply_loop :: "string list \<Rightarrow> Txn \<Rightarrow> Txn \<times> error option" where
  "apply_loop [] txn = (txn, None)"
| "apply_loop (key # ks) txn =
     (case writeSet txn key of
        None \<Rightarrow> apply_loop ks txn
      | Some rlog \<Rightarrow>
          if Action rlog = LInsert then
            apply_loop ks
              (txn\<lparr>db := (db txn)(Key (Rec rlog) \<mapsto> Rec rlog),
                   writeSet := (writeSet txn)(key := None)\<rparr>)
          else if Action rlog = LUpdate then
            let r = (case db txn (Key (Rec rlog)) of
                       None \<Rightarrow> \<lparr>Key = [], Value = []\<rparr>
                     | Some r \<Rightarrow> r);
                r' = r\<lparr>Value := Value (Rec rlog)\<rparr>
            in apply_loop ks
                 (txn\<lparr>db := (db txn)(Key (Rec rlog) \<mapsto> r'),
                      writeSet := (writeSet txn)(key := None)\<rparr>)
          else if Action rlog = LDelete then
            apply_loop ks
              (txn\<lparr>db := (db txn)(Key (Rec rlog) := None),
                   writeSet := (writeSet txn)(key := None)\<rparr>)
          else (txn, Some (ErrUnexpected (Action rlog))))"

definition Txn_Commit ::
  "io_outcome list \<Rightarrow> string list \<Rightarrow> string list \<Rightarrow> Txn \<Rightarrow> Txn \<times> error option" where
  "Txn_Commit io ks1 ks2 txn =
     (if dom (writeSet txn) = {} then (txn, None)
      else
        case log_loop (writeSet txn) ks1 io (replicate 4096 0) (wal txn) of
          (io1, buf1, f1, Some err) \<Rightarrow> (txn\<lparr>wal := f1\<rparr>, Some err)
        | (io1, buf1, f1, None) \<Rightarrow>
            (case RecordLog_Serialize \<lparr>Action = LCommit, Rec = \<lparr>Key = [], Value = []\<rparr>\<rparr> buf1 of
               (buf2, Inl err) \<Rightarrow> (txn\<lparr>wal := f1\<rparr>, Some (PanicLog err))
             | (buf2, Inr n) \<Rightarrow>
                 (case File_Write (fst (next_outcome io1)) f1 (take n buf2) of
                    (f2, Some err) \<Rightarrow> (txn\<lparr>wal := f2\<rparr>, Some err)
                  | (f2, None) \<Rightarrow>
                      (case File_Sync (fst (next_outcome (snd (next_outcome io1)))) of
                         Some err \<Rightarrow> (txn\<lparr>wal := f2\<rparr>, Some err)
                       | None \<Rightarrow> apply_loop ks2 (txn\<lparr>wal := f2\<rparr>)))))"

definition Txn_Abort :: "string list \<Rightarrow> Txn \<Rightarrow> Txn" where
  "Txn_Abort ks txn = txn\<lparr>writeSet := fold (\<lambda>k m. m(k := None)) ks (writeSet txn)\<rparr>"

text \<open>
  The states of the engine: those that \<^verbatim>\<open>NewTxn\<close> and the methods produce, whatever the
  arguments, the outcomes of the file operations and the orders of the map visits.
  \<^verbatim>\<open>Read\<close> changes nothing.
\<close>

definition enumerates :: "string list \<Rightarrow> (string \<rightharpoonup> 'a) \<Rightarrow> bool" where
  "enumerates ks m \<longleftrightarrow> distinct ks \<and> set ks = dom m"

inductive reachable :: "Txn \<Rightarrow> bool" where
  reach_NewTxn: "reachable (NewTxn w)"
| reach_Insert: "reachable txn \<Longrightarrow> reachable (fst (Txn_Insert txn key val))"
| reach_Update: "reachable txn \<Longrightarrow> reachable (fst (Txn_Update txn key val))"
| reach_Delete: "reachable txn \<Longrightarrow> reachable (fst (Txn_Delete txn key))"
| reach_Commit: "reachable txn \<Longrightarrow> enumerates ks1 (writeSet txn) \<Longrightarrow> enumerates ks2 (writeSet txn)
     \<Longrightarrow> reachable (fst (Txn_Commit io ks1 ks2 txn))"
| reach_Abort: "reachable txn \<Longrightarrow> enumerates ks (writeSet txn) \<Longrightarrow> reachable (Txn_Abort ks txn)"

section \<open>The wire format and the notions of the specification\<close>

text \<open>
  The layout of a record on the wire: \<open>key_len:u8 | value_len:u32 (big-endian) | key | value\<close>,
  and of a log entry: the action tag, followed by the record when the action is Insert,
  Delete or Update.
\<close>

definition be32 :: "32 word \<Rightarrow> byte list" where
  "be32 v = [ucast (drop_bit 24 v), ucast (drop_bit 16 v), ucast (drop_bit 8 v), ucast v]"

definition wire_Record :: "Record \<Rightarrow> byte list" where
  "wire_Record r =
     word_of_nat (length (Key r)) # be32 (word_of_nat (length (Value r)))
       @ bytes_of_string (Key r) @ Value r"

definition pending :: "byte \<Rightarrow> bool" where
  "pending a \<longleftrightarrow> a = LInsert \<or> a = LUpdate \<or> a = LDelete"

definition wire_RecordLog :: "RecordLog \<Rightarrow> byte list" where
  "wire_RecordLog e = Action e # (if pending (Action e) then wire_Record (Rec e) else [])"

text \<open>
  An entry fits a buffer of \<open>n\<close> bytes when \<^verbatim>\<open>RecordLog.Serialize\<close> has room for what it
  writes: the tag alone for an action above \<^verbatim>\<open>LRead\<close>, the tag and the record otherwise.
\<close>

definition fits :: "nat \<Rightarrow> RecordLog \<Rightarrow> bool" where
  "fits n e \<longleftrightarrow>
     1 \<le> n \<and> (LRead < Action e \<or> 6 + length (Key (Rec e)) + length (Value (Rec e)) \<le> n)"

text \<open>
  The db with every pending entry of a write-set applied: Insert and Update store the
  pending record under the key, Delete removes the key, every other key is as before.
\<close>

definition apply_pending ::
  "(string \<rightharpoonup> Record) \<Rightarrow> (string \<rightharpoonup> RecordLog) \<Rightarrow> (string \<rightharpoonup> Record)" where
  "apply_pending d ws =
     (\<lambda>k. case ws k of
            None \<Rightarrow> d k
          | Some e \<Rightarrow>
              if Action e = LInsert \<or> Action e = LUpdate then Some (Rec e)
              else if Action e = LDelete then None
              else d k)"

text \<open>
  The consistency of the write-set with the db: every entry is stored under the key of
  its record and carries one of the three pending actions, a pending Insert is for a key
  absent from the db, a pending Update or Delete is for a key present in the db, and
  every record of the db is stored under its own key.
\<close>

definition entry_ok :: "(string \<rightharpoonup> Record) \<Rightarrow> string \<Rightarrow> RecordLog \<Rightarrow> bool" where
  "entry_ok d k e \<longleftrightarrow>
     Key (Rec e) = k \<and> pending (Action e) \<and>
     (Action e = LInsert \<longrightarrow> d k = None) \<and>
     (Action e = LUpdate \<or> Action e = LDelete \<longrightarrow> d k \<noteq> None)"

definition txn_inv :: "Txn \<Rightarrow> bool" where
  "txn_inv txn \<longleftrightarrow>
     (\<forall>k e. writeSet txn k = Some e \<longrightarrow> entry_ok (db txn) k e) \<and>
     (\<forall>k r. db txn k = Some r \<longrightarrow> Key r = k)"

text \<open>
  What \<^verbatim>\<open>RecordLog.Serialize\<close> writes for an entry that fits, and what a commit whose
  file operations all succeed appends to the log for a visit of the write-set in the
  order \<open>ks\<close>.
\<close>

definition entry_bytes :: "RecordLog \<Rightarrow> byte list" where
  "entry_bytes e = Action e # (if LRead < Action e then [] else wire_Record (Rec e))"

definition logged :: "(string \<rightharpoonup> RecordLog) \<Rightarrow> string list \<Rightarrow> byte list" where
  "logged ws ks = concat (map (\<lambda>k. entry_bytes (the (ws k))) ks) @ [LCommit]"

text \<open>
  Four states of the engine, after the pattern of the calls in \<^verbatim>\<open>main\<close>: a pending
  Insert of \<open>key1\<close>; pending Inserts of \<open>key1\<close> and \<open>key3\<close>; \<open>key1\<close> committed (a commit
  whose file operations all succeed); and a pending Delete of the committed \<open>key1\<close>.
\<close>

definition ex_insert :: Txn where
  "ex_insert = fst (Txn_Insert (NewTxn []) ''key1'' [1])"

definition ex_two :: Txn where
  "ex_two = fst (Txn_Insert ex_insert ''key3'' [3])"

definition ex_committed :: Txn where
  "ex_committed = fst (Txn_Commit [] [''key1''] [''key1''] ex_insert)"

definition ex_delete :: Txn where
  "ex_delete = fst (Txn_Delete ex_committed ''key1'')"

text \<open>A pending Insert whose entry does not fit the 4096 bytes of the commit buffer.\<close>

definition ex_big :: Txn where
  "ex_big = fst (Txn_Insert (NewTxn []) ''big'' (replicate 5000 0))"

section \<open>Properties of the codecs\<close>


lemma length_bytes_of_string: "length (bytes_of_string s) = length s"
  by (simp add: bytes_of_string_def)

lemma string_of_bytes_of_string: "string_of_bytes (bytes_of_string s) = s"
  by (induction s) (simp_all add: bytes_of_string_def string_of_bytes_def unat_of_nat)

lemma length_copy: "length (copy dst src) = length dst"
  by (simp add: copy_def)

lemma copy_prefix: "length src \<le> length dst \<Longrightarrow> copy dst src = src @ drop (length src) dst"
  by (simp add: copy_def)

lemma clone_id: "clone v = v"
  by (simp add: clone_def copy_def)

lemma length_be32: "length (be32 v) = 4"
  by (simp add: be32_def)

lemma length_wire_Record: "length (wire_Record r) = 5 + length (Key r) + length (Value r)"
  by (simp add: wire_Record_def length_be32 length_bytes_of_string)

lemma PutUint32_be32: "PutUint32 b v = be32 v @ drop 4 b" if "4 \<le> length b"
proof -
  have "drop (Suc (Suc (Suc (Suc 0)))) b = drop 4 b"
    by (simp add: eval_nat_numeral)
  moreover have "Suc (Suc (Suc (Suc 0))) \<le> length b"
    using that by simp
  ultimately show ?thesis
    by (simp add: PutUint32_def be32_def copy_def)
qed

lemma Record_Serialize_short:
  "length buf < 5 + length (Key r) + length (Value r) \<Longrightarrow>
     Record_Serialize r buf = (buf, Inl ErrBufferShort)"
  by (simp add: Record_Serialize_def length_bytes_of_string)

lemma Record_Serialize_fits:
  assumes "length (wire_Record r) \<le> length buf"
  shows "Record_Serialize r buf =
           (wire_Record r @ drop (length (wire_Record r)) buf, Inr (length (wire_Record r)))"
proof -
  obtain b0 rest where buf: "buf = b0 # rest"
    using assms by (cases buf) (auto simp add: length_wire_Record)
  have rest: "4 + length (Key r) + length (Value r) \<le> length rest"
    using assms buf by (simp add: length_wire_Record)
  show ?thesis
    using rest
    by (simp add: Record_Serialize_def Let_def buf length_bytes_of_string PutUint32_be32
        wire_Record_def length_be32 copy_prefix length_copy drop_Cons' ac_simps)
qed

lemma Uint32_be32: "Uint32 (be32 v @ rest) = v"
proof -
  let ?w = "ucast (ucast v :: byte) OR push_bit 8 (ucast (ucast (drop_bit 8 v) :: byte))
          OR push_bit 16 (ucast (ucast (drop_bit 16 v) :: byte))
          OR push_bit 24 (ucast (ucast (drop_bit 24 v) :: byte)) :: 32 word"
  have "?w = v"
  proof (rule bit_word_eqI)
    fix n :: nat
    assume "n < LENGTH(32)"
    then have n: "n < 32" by simp
    consider "n < 8" | "8 \<le> n" "n < 16" | "16 \<le> n" "n < 24" | "24 \<le> n"
      by linarith
    then show "bit ?w n = bit v n"
      using n by cases (auto simp add: bit_simps)
  qed
  then show ?thesis
    by (simp add: Uint32_def be32_def)
qed

lemma unat_byte_of_nat: "n \<le> 255 \<Longrightarrow> unat (word_of_nat n :: byte) = n"
  by (simp add: unat_of_nat)

lemma unat_u32_of_nat: "n < 2 ^ 32 \<Longrightarrow> unat (word_of_nat n :: 32 word) = n"
  by (simp add: unat_of_nat)

lemma unat_5_plus_byte: "unat (5 + (w :: byte)) = (5 + unat w) mod 256"
  by (simp add: unat_word_ariths)

lemma Record_Deserialize_wire:
  assumes k: "length (Key r) \<le> 250" and v: "length (Value r) < 2 ^ 32"
  shows "Record_Deserialize r0 (wire_Record r @ rest) =
           (r, Inr (5 + length (Key r) + length (Value r)))"
proof -
  let ?kl = "word_of_nat (length (Key r)) :: byte"
  let ?vl = "word_of_nat (length (Value r)) :: 32 word"
  have kl: "unat ?kl = length (Key r)"
    using k by (simp add: unat_byte_of_nat)
  have vl: "unat ?vl = length (Value r)"
    using v by (rule unat_u32_of_nat)
  have hi: "unat (5 + ?kl) = 5 + length (Key r)"
    using k by (simp add: unat_5_plus_byte kl)
  have w: "wire_Record r @ rest = ?kl # be32 ?vl @ bytes_of_string (Key r) @ Value r @ rest"
    by (simp add: wire_Record_def)
  have d5: "drop 5 (?kl # be32 ?vl @ bytes_of_string (Key r) @ Value r @ rest)
              = bytes_of_string (Key r) @ Value r @ rest"
    by (simp add: be32_def)
  have dhi: "drop (5 + length (Key r)) (?kl # be32 ?vl @ bytes_of_string (Key r) @ Value r @ rest)
              = Value r @ rest"
  proof -
    have "drop (5 + length (Key r)) (?kl # be32 ?vl @ bytes_of_string (Key r) @ Value r @ rest)
            = drop (length (Key r))
                (drop 5 (?kl # be32 ?vl @ bytes_of_string (Key r) @ Value r @ rest))"
      by (simp only: drop_drop add.commute)
    also have "\<dots> = Value r @ rest"
      by (simp only: d5) (simp add: length_bytes_of_string)
    finally show ?thesis .
  qed
  show ?thesis
    unfolding w Record_Deserialize_def
    by (simp add: Let_def Uint32_be32 kl vl hi d5 dhi length_be32 length_bytes_of_string
        string_of_bytes_of_string copy_def)
qed

lemma Record_Deserialize_wire_panic:
  assumes k: "251 \<le> length (Key r)" "length (Key r) \<le> 255" and v: "length (Value r) < 2 ^ 32"
  shows "Record_Deserialize r0 (wire_Record r @ rest) =
           (r0, Inl (PanicSliceBounds 5 (length (Key r) - 251)))"
proof -
  let ?kl = "word_of_nat (length (Key r)) :: byte"
  let ?vl = "word_of_nat (length (Value r)) :: 32 word"
  have kl: "unat ?kl = length (Key r)"
    using k by (simp add: unat_byte_of_nat)
  have vl: "unat ?vl = length (Value r)"
    using v by (rule unat_u32_of_nat)
  have hi: "unat (5 + ?kl) = length (Key r) - 251"
    using k by (simp add: unat_5_plus_byte kl mod_if)
  have w: "wire_Record r @ rest = ?kl # be32 ?vl @ bytes_of_string (Key r) @ Value r @ rest"
    by (simp add: wire_Record_def)
  show ?thesis
    unfolding w Record_Deserialize_def using k
    by (simp add: Let_def Uint32_be32 kl vl hi length_be32 length_bytes_of_string)
qed


lemma Record_roundtrip_key_250:
  assumes "length (Key r) \<le> 250" and "length (Value r) < 2 ^ 32"
    and "5 + length (Key r) + length (Value r) \<le> length buf"
  shows "snd (Record_Serialize r buf) = Inr (5 + length (Key r) + length (Value r)) \<and>
         Record_Deserialize r0 (fst (Record_Serialize r buf))
           = (r, Inr (5 + length (Key r) + length (Value r)))"
  using assms
  by (simp add: Record_Serialize_fits length_wire_Record Record_Deserialize_wire)

lemma pending_le_LRead: "pending a \<Longrightarrow> \<not> LRead < a"
  by (auto simp add: pending_def LInsert_def LUpdate_def LDelete_def LRead_def)

lemma fits_alt:
  "fits n e \<longleftrightarrow> 1 \<le> n \<and> (LRead < Action e \<or> Suc (length (wire_Record (Rec e))) \<le> n)"
  by (auto simp add: fits_def length_wire_Record)

lemma RecordLog_Serialize_marker:
  "LRead < Action e \<Longrightarrow> 1 \<le> length buf \<Longrightarrow>
     RecordLog_Serialize e buf = (buf[0 := Action e], Inr 1)"
  by (cases buf) (simp_all add: RecordLog_Serialize_def)

lemma RecordLog_Serialize_payload:
  assumes "\<not> LRead < Action e"
    and "Suc (length (wire_Record (Rec e))) \<le> length buf"
  shows "RecordLog_Serialize e buf =
           (Action e # wire_Record (Rec e) @ drop (Suc (length (wire_Record (Rec e)))) buf,
            Inr (Suc (length (wire_Record (Rec e)))))"
proof -
  obtain b0 rest where buf: "buf = b0 # rest"
    using assms(2) by (cases buf) auto
  have "length (wire_Record (Rec e)) \<le> length rest"
    using assms(2) buf by simp
  then show ?thesis
    using assms(1) by (simp add: RecordLog_Serialize_def buf Record_Serialize_fits)
qed

lemma RecordLog_Serialize_short:
  assumes "\<not> fits (length buf) e"
  shows "RecordLog_Serialize e buf = (buf, Inl ErrBufferShort)"
proof (cases buf)
  case Nil
  then show ?thesis by (simp add: RecordLog_Serialize_def)
next
  case (Cons b0 rest)
  then have "\<not> LRead < Action e"
    and "length rest < 5 + length (Key (Rec e)) + length (Value (Rec e))"
    using assms by (auto simp add: fits_def)
  then show ?thesis
    by (simp add: RecordLog_Serialize_def Cons Record_Serialize_short)
qed

lemma RecordLog_Serialize_cases:
  "RecordLog_Serialize e buf =
     (if \<not> fits (length buf) e then (buf, Inl ErrBufferShort)
      else if LRead < Action e then (buf[0 := Action e], Inr 1)
      else (Action e # wire_Record (Rec e) @ drop (Suc (length (wire_Record (Rec e)))) buf,
            Inr (Suc (length (wire_Record (Rec e))))))"
  by (simp add: RecordLog_Serialize_short RecordLog_Serialize_marker
      RecordLog_Serialize_payload fits_alt)

lemma length_RecordLog_Serialize: "length (fst (RecordLog_Serialize e buf)) = length buf"
  by (auto simp add: RecordLog_Serialize_cases fits_alt)

lemma RecordLog_Serialize_pending:
  assumes "pending (Action e)" and "RecordLog_Serialize e buf = (buf', Inr n)"
  shows "take n buf' = wire_RecordLog e"
proof -
  have "\<not> LRead < Action e"
    using assms(1) by (rule pending_le_LRead)
  moreover have "wire_RecordLog e = Action e # wire_Record (Rec e)"
    using assms(1) by (simp add: wire_RecordLog_def)
  ultimately show ?thesis
    using assms(2) by (auto simp add: RecordLog_Serialize_cases split: if_splits)
qed

section \<open>Properties of the transaction engine\<close>

lemma action_distinct:
  "LInsert \<noteq> LDelete" "LInsert \<noteq> LUpdate" "LDelete \<noteq> LUpdate"
  "LDelete \<noteq> LInsert" "LUpdate \<noteq> LInsert" "LUpdate \<noteq> LDelete"
  by (simp_all add: LInsert_def LDelete_def LUpdate_def)

lemma txn_inv_alt:
  "txn_inv txn \<longleftrightarrow>
     (\<forall>k e. writeSet txn k = Some e \<longrightarrow> entry_ok (db txn) k e) \<and>
     (\<forall>k r. db txn k = Some r \<longrightarrow> Key r = k)"
  by (simp add: txn_inv_def)

lemma txn_inv_writeSet_upd:
  assumes "txn_inv txn" and "entry_ok (db txn) k e"
  shows "txn_inv (txn\<lparr>writeSet := (writeSet txn)(k \<mapsto> e)\<rparr>)"
  using assms by (simp add: txn_inv_alt)

lemma txn_inv_writeSet_del:
  assumes "txn_inv txn"
  shows "txn_inv (txn\<lparr>writeSet := (writeSet txn)(k := None)\<rparr>)"
  using assms by (simp add: txn_inv_alt)

lemma txn_inv_entry: "txn_inv txn \<Longrightarrow> writeSet txn k = Some e \<Longrightarrow> entry_ok (db txn) k e"
  by (simp add: txn_inv_alt)

lemma txn_inv_db: "txn_inv txn \<Longrightarrow> db txn k = Some r \<Longrightarrow> Key r = k"
  by (simp add: txn_inv_alt)

lemma txn_inv_NewTxn: "txn_inv (NewTxn w)"
  by (simp add: txn_inv_def NewTxn_def)

lemma txn_inv_Insert:
  assumes "txn_inv txn"
  shows "txn_inv (fst (Txn_Insert txn key val))"
proof (cases "writeSet txn key")
  case None
  show ?thesis
  proof (cases "db txn key")
    case None
    have "entry_ok (db txn) key \<lparr>Action = LInsert, Rec = \<lparr>Key = key, Value = clone val\<rparr>\<rparr>"
      using None by (simp add: entry_ok_def pending_def action_distinct)
    then show ?thesis
      using \<open>writeSet txn key = None\<close> None assms
      by (simp add: Txn_Insert_def txn_inv_writeSet_upd)
  next
    case (Some r)
    then show ?thesis
      using \<open>writeSet txn key = None\<close> assms by (simp add: Txn_Insert_def)
  qed
next
  case (Some e)
  then have ok: "entry_ok (db txn) key e"
    using assms by (simp add: txn_inv_entry)
  show ?thesis
  proof (cases "Action e = LDelete")
    case True
    have "entry_ok (db txn) key (e\<lparr>Action := LUpdate, Rec := (Rec e)\<lparr>Value := clone val\<rparr>\<rparr>)"
      using ok True by (simp add: entry_ok_def pending_def action_distinct)
    moreover have "Key (Rec e) = key"
      using ok by (simp add: entry_ok_def)
    ultimately show ?thesis
      using Some True assms by (simp add: Txn_Insert_def txn_inv_writeSet_upd)
  next
    case False
    then show ?thesis
      using Some assms by (simp add: Txn_Insert_def)
  qed
qed

lemma txn_inv_Update:
  assumes "txn_inv txn"
  shows "txn_inv (fst (Txn_Update txn key val))"
proof (cases "writeSet txn key")
  case None
  show ?thesis
  proof (cases "db txn key")
    case None
    then show ?thesis
      using \<open>writeSet txn key = None\<close> assms by (simp add: Txn_Update_def)
  next
    case (Some r)
    then have "Key r = key"
      using assms by (simp add: txn_inv_db)
    then have "entry_ok (db txn) (Key r) \<lparr>Action = LUpdate, Rec = \<lparr>Key = Key r, Value = clone val\<rparr>\<rparr>"
      using Some by (simp add: entry_ok_def pending_def action_distinct)
    then show ?thesis
      using \<open>writeSet txn key = None\<close> Some assms
      by (simp add: Txn_Update_def txn_inv_writeSet_upd)
  qed
next
  case (Some e)
  then have ok: "entry_ok (db txn) key e"
    using assms by (simp add: txn_inv_entry)
  show ?thesis
  proof (cases "Action e = LDelete")
    case True
    then show ?thesis
      using Some assms by (simp add: Txn_Update_def)
  next
    case False
    have "entry_ok (db txn) key (e\<lparr>Rec := (Rec e)\<lparr>Value := clone val\<rparr>\<rparr>)"
      using ok by (simp add: entry_ok_def)
    moreover have "Key (Rec e) = key"
      using ok by (simp add: entry_ok_def)
    ultimately show ?thesis
      using Some False assms by (simp add: Txn_Update_def txn_inv_writeSet_upd)
  qed
qed

lemma txn_inv_Delete:
  assumes "txn_inv txn"
  shows "txn_inv (fst (Txn_Delete txn key))"
proof (cases "writeSet txn key")
  case None
  show ?thesis
  proof (cases "db txn key")
    case None
    then show ?thesis
      using \<open>writeSet txn key = None\<close> assms by (simp add: Txn_Delete_def)
  next
    case (Some r)
    then have "Key r = key"
      using assms by (simp add: txn_inv_db)
    then have "entry_ok (db txn) (Key r) \<lparr>Action = LDelete, Rec = \<lparr>Key = Key r, Value = []\<rparr>\<rparr>"
      using Some by (simp add: entry_ok_def pending_def action_distinct)
    then show ?thesis
      using \<open>writeSet txn key = None\<close> Some assms
      by (simp add: Txn_Delete_def txn_inv_writeSet_upd)
  qed
next
  case (Some e)
  then have ok: "entry_ok (db txn) key e"
    using assms by (simp add: txn_inv_entry)
  consider "Action e = LDelete" | "Action e = LInsert" | "Action e = LUpdate"
    using ok by (auto simp add: entry_ok_def pending_def)
  then show ?thesis
  proof cases
    case 1
    then show ?thesis
      using Some assms by (simp add: Txn_Delete_def)
  next
    case 2
    then show ?thesis
      using Some assms by (simp add: Txn_Delete_def action_distinct txn_inv_writeSet_del)
  next
    case 3
    have "entry_ok (db txn) key (e\<lparr>Rec := (Rec e)\<lparr>Value := []\<rparr>, Action := LDelete\<rparr>)"
      using ok 3 by (simp add: entry_ok_def pending_def action_distinct)
    moreover have "Key (Rec e) = key"
      using ok by (simp add: entry_ok_def)
    ultimately show ?thesis
      using Some 3 assms by (simp add: Txn_Delete_def action_distinct txn_inv_writeSet_upd)
  qed
qed

lemma fold_delete: "fold (\<lambda>k m. m(k := None)) ks m = (\<lambda>k. if k \<in> set ks then None else m k)"
  by (induction ks arbitrary: m) (auto simp add: fun_eq_iff)

lemma writeSet_Abort: "enumerates ks (writeSet txn) \<Longrightarrow> writeSet (Txn_Abort ks txn) = Map.empty"
  by (auto simp add: Txn_Abort_def fold_delete enumerates_def fun_eq_iff)

lemma txn_inv_Abort: "txn_inv txn \<Longrightarrow> txn_inv (Txn_Abort ks txn)"
  by (simp add: txn_inv_def Txn_Abort_def fold_delete)

lemma Record_update_same:
  fixes r r' :: Record
  shows "Key r = Key r' \<Longrightarrow> r\<lparr>Value := Value r'\<rparr> = r'"
  by (cases r, cases r') simp

lemma entry_ok_cases:
  assumes "entry_ok d k e"
  obtains "Action e = LInsert" "d k = None" "Key (Rec e) = k"
  | r where "Action e = LUpdate" "d k = Some r" "Key (Rec e) = k"
  | r where "Action e = LDelete" "d k = Some r" "Key (Rec e) = k"
  using assms by (auto simp add: entry_ok_def pending_def)

lemma apply_loop_skip: "writeSet txn key = None \<Longrightarrow> apply_loop (key # ks) txn = apply_loop ks txn"
  by simp

lemma apply_loop_step:
  assumes inv: "txn_inv txn" and e: "writeSet txn key = Some e"
  shows "apply_loop (key # ks) txn =
           apply_loop ks (txn\<lparr>db := (db txn)(key := apply_pending (db txn) (writeSet txn) key),
                               writeSet := (writeSet txn)(key := None)\<rparr>)"
proof -
  have "entry_ok (db txn) key e"
    using inv e by (rule txn_inv_entry)
  then show ?thesis
  proof (cases rule: entry_ok_cases)
    case 1
    then show ?thesis
      using e by (simp add: apply_pending_def)
  next
    case (2 r)
    then have "Key r = Key (Rec e)"
      using inv by (simp add: txn_inv_db)
    then have "r\<lparr>Value := Value (Rec e)\<rparr> = Rec e"
      by (rule Record_update_same)
    then show ?thesis
      using e 2 by (simp add: apply_pending_def action_distinct)
  next
    case (3 r)
    then show ?thesis
      using e by (simp add: apply_pending_def action_distinct)
  qed
qed

lemma txn_inv_step:
  assumes inv: "txn_inv txn"
  shows "txn_inv (txn\<lparr>db := (db txn)(key := apply_pending (db txn) (writeSet txn) key),
                       writeSet := (writeSet txn)(key := None)\<rparr>)"
proof (cases "writeSet txn key")
  case None
  then have "(db txn)(key := apply_pending (db txn) (writeSet txn) key) = db txn"
    by (simp add: apply_pending_def fun_eq_iff)
  then show ?thesis
    using inv by (simp add: txn_inv_alt)
next
  case (Some e)
  have ok: "entry_ok (db txn) key e"
    using inv Some by (rule txn_inv_entry)
  have others: "entry_ok ((db txn)(key := v)) k e'"
    if "k \<noteq> key" "writeSet txn k = Some e'" for k e' v
    using txn_inv_entry [OF inv that(2)] that(1) by (simp add: entry_ok_def)
  have dbs: "Key r = k" if "((db txn)(key := apply_pending (db txn) (writeSet txn) key)) k = Some r"
    for k r
  proof (cases "k = key")
    case True
    then show ?thesis
      using that ok Some
      by (auto simp add: apply_pending_def entry_ok_def pending_def split: if_splits)
  next
    case False
    then show ?thesis
      using that inv by (simp add: txn_inv_db)
  qed
  show ?thesis
    unfolding txn_inv_alt using others dbs by simp
qed

lemma apply_loop_inv:
  assumes "txn_inv txn"
  shows "snd (apply_loop ks txn) = None \<and>
         txn_inv (fst (apply_loop ks txn)) \<and>
         wal (fst (apply_loop ks txn)) = wal txn \<and>
         writeSet (fst (apply_loop ks txn)) = (\<lambda>k. if k \<in> set ks then None else writeSet txn k) \<and>
         db (fst (apply_loop ks txn)) =
           (\<lambda>k. if k \<in> set ks then apply_pending (db txn) (writeSet txn) k else db txn k)"
  using assms
proof (induction ks arbitrary: txn)
  case Nil
  then show ?case by simp
next
  case (Cons key ks)
  show ?case
  proof (cases "writeSet txn key")
    case None
    have "apply_pending (db txn) (writeSet txn) key = db txn key"
      using None by (simp add: apply_pending_def)
    then show ?thesis
      using Cons.IH [OF Cons.prems] None by (auto simp add: fun_eq_iff)
  next
    case (Some e)
    let ?t = "txn\<lparr>db := (db txn)(key := apply_pending (db txn) (writeSet txn) key),
                   writeSet := (writeSet txn)(key := None)\<rparr>"
    have step: "apply_loop (key # ks) txn = apply_loop ks ?t"
      using Cons.prems Some by (rule apply_loop_step)
    have inv: "txn_inv ?t"
      using Cons.prems by (rule txn_inv_step)
    have same: "apply_pending (db ?t) (writeSet ?t) k = apply_pending (db txn) (writeSet txn) k" for k
      by (cases "k = key") (simp_all add: apply_pending_def split: option.splits)
    from Cons.IH [OF inv] have
      r: "snd (apply_loop ks ?t) = None" and
      i: "txn_inv (fst (apply_loop ks ?t))" and
      w: "wal (fst (apply_loop ks ?t)) = wal txn" and
      ws: "writeSet (fst (apply_loop ks ?t)) =
             (\<lambda>k. if k \<in> set ks then None else writeSet ?t k)" and
      d: "db (fst (apply_loop ks ?t)) =
            (\<lambda>k. if k \<in> set ks then apply_pending (db ?t) (writeSet ?t) k else db ?t k)"
      by simp_all
    have ws': "(\<lambda>k. if k \<in> set ks then None else writeSet ?t k) =
                 (\<lambda>k. if k \<in> set (key # ks) then None else writeSet txn k)"
      by (auto simp add: fun_eq_iff)
    have d': "(\<lambda>k. if k \<in> set ks then apply_pending (db ?t) (writeSet ?t) k else db ?t k) =
                (\<lambda>k. if k \<in> set (key # ks) then apply_pending (db txn) (writeSet txn) k
                     else db txn k)"
      unfolding same by (auto simp add: fun_eq_iff)
    show ?thesis
      unfolding step using r i w by (simp only: ws d ws' d')
  qed
qed

lemma apply_loop_wal: "wal (fst (apply_loop ks txn)) = wal txn"
  by (induction ks txn rule: apply_loop.induct) (simp_all add: Let_def split: option.splits)

lemma entry_bytes_pending: "pending (Action e) \<Longrightarrow> entry_bytes e = wire_RecordLog e"
  by (simp add: entry_bytes_def wire_RecordLog_def pending_le_LRead)

lemma fits_entry_bytes: "fits n e \<longleftrightarrow> 1 \<le> n \<and> length (entry_bytes e) \<le> n"
  by (auto simp add: fits_alt entry_bytes_def)

lemma RecordLog_Serialize_fits:
  assumes "fits (length buf) e"
  shows "RecordLog_Serialize e buf =
           (entry_bytes e @ drop (length (entry_bytes e)) buf, Inr (length (entry_bytes e)))"
proof (cases "LRead < Action e")
  case True
  obtain b0 rest where "buf = b0 # rest"
    using assms by (cases buf) (auto simp add: fits_def)
  then show ?thesis
    using True by (simp add: RecordLog_Serialize_def entry_bytes_def)
next
  case False
  then show ?thesis
    using assms by (simp add: RecordLog_Serialize_cases entry_bytes_def)
qed

lemma snd_next_outcome: "snd (next_outcome io) = tl io"
  by (cases io) simp_all

lemma log_loop_skip: "ws key = None \<Longrightarrow> log_loop ws (key # ks) io buf f = log_loop ws ks io buf f"
  by simp

lemma log_loop_short:
  "ws key = Some e \<Longrightarrow> \<not> fits (length buf) e \<Longrightarrow>
     log_loop ws (key # ks) io buf f = (io, buf, f, Some ErrBufferShort)"
  by (simp add: RecordLog_Serialize_short)

lemma log_loop_ok:
  assumes "ws key = Some e" "fits (length buf) e" "fst (next_outcome io) = IoOk"
  shows "log_loop ws (key # ks) io buf f =
           log_loop ws ks (tl io) (entry_bytes e @ drop (length (entry_bytes e)) buf)
             (f @ entry_bytes e)"
  using assms by (simp add: RecordLog_Serialize_fits snd_next_outcome)

lemma log_loop_fail:
  assumes "ws key = Some e" "fits (length buf) e" "fst (next_outcome io) = IoFail n m"
  shows "log_loop ws (key # ks) io buf f =
           (tl io, entry_bytes e @ drop (length (entry_bytes e)) buf,
            f @ take m (entry_bytes e), Some (ErrIO n))"
  using assms by (simp add: RecordLog_Serialize_fits snd_next_outcome Let_def min_def)

lemma next_outcome_fail: "fst (next_outcome io) = IoFail n m \<Longrightarrow> io \<noteq> [] \<and> hd io = IoFail n m"
  by (cases io) simp_all

lemma take_Suc_all_ok:
  "fst (next_outcome io) = IoOk \<Longrightarrow> set (take n (tl io)) \<subseteq> {IoOk} \<Longrightarrow>
     set (take (Suc n) io) \<subseteq> {IoOk}"
  by (cases io) simp_all

lemma in_take_tl: "x \<in> set (take n (tl io)) \<Longrightarrow> x \<in> set (take (Suc n) io)"
  by (cases io) simp_all

lemma log_loop_success:
  assumes "set ks \<subseteq> dom ws" and "log_loop ws ks io buf f = (io', buf', f', None)"
  shows "(\<forall>k e. k \<in> set ks \<longrightarrow> ws k = Some e \<longrightarrow> fits (length buf) e) \<and>
         set (take (length ks) io) \<subseteq> {IoOk} \<and>
         io' = drop (length ks) io \<and>
         length buf' = length buf \<and>
         f' = f @ concat (map (\<lambda>k. entry_bytes (the (ws k))) ks)"
  using assms
proof (induction ks arbitrary: io buf f)
  case Nil
  then show ?case by simp
next
  case (Cons key ks)
  then obtain e where e: "ws key = Some e"
    by auto
  have sub: "set ks \<subseteq> dom ws"
    using Cons.prems(1) by simp
  have fit: "fits (length buf) e"
  proof (rule ccontr)
    assume "\<not> fits (length buf) e"
    then have "log_loop ws (key # ks) io buf f = (io, buf, f, Some ErrBufferShort)"
      using e by (simp add: log_loop_short del: log_loop.simps)
    then show False
      using Cons.prems(2) by (simp del: log_loop.simps)
  qed
  have ok: "fst (next_outcome io) = IoOk"
  proof (cases "fst (next_outcome io)")
    case IoOk
    then show ?thesis .
  next
    case (IoFail n m)
    then show ?thesis
      using Cons.prems(2) e fit by (simp add: log_loop_fail del: log_loop.simps)
  qed
  let ?buf = "entry_bytes e @ drop (length (entry_bytes e)) buf"
  have len: "length ?buf = length buf"
    using fit by (simp add: fits_entry_bytes)
  have "log_loop ws ks (tl io) ?buf (f @ entry_bytes e) = (io', buf', f', None)"
    using Cons.prems(2) log_loop_ok [of ws key e buf io ks f] e fit ok
    by (simp del: log_loop.simps)
  from Cons.IH [OF sub this, unfolded len] have
    a: "\<forall>k e. k \<in> set ks \<longrightarrow> ws k = Some e \<longrightarrow> fits (length buf) e" and
    b: "set (take (length ks) (tl io)) \<subseteq> {IoOk}" and
    c: "io' = drop (length ks) (tl io)" and
    d: "length buf' = length buf" and
    g: "f' = (f @ entry_bytes e) @ concat (map (\<lambda>k. entry_bytes (the (ws k))) ks)"
    by blast+
  have "set (take (length (key # ks)) io) \<subseteq> {IoOk}"
    using take_Suc_all_ok [OF ok b] by simp
  moreover have "io' = drop (length (key # ks)) io"
    using c by (simp add: drop_Suc)
  moreover have "\<forall>k e'. k \<in> set (key # ks) \<longrightarrow> ws k = Some e' \<longrightarrow> fits (length buf) e'"
    using a e fit by auto
  ultimately show ?case
    using d g e by simp
qed

lemma log_loop_failure:
  assumes "set ks \<subseteq> dom ws" and "log_loop ws ks io buf f = (io', buf', f', Some err)"
  shows "(err = ErrBufferShort \<and> (\<exists>k e. k \<in> set ks \<and> ws k = Some e \<and> \<not> fits (length buf) e)) \<or>
         (\<exists>n m. err = ErrIO n \<and> IoFail n m \<in> set (take (length ks) io))"
  using assms
proof (induction ks arbitrary: io buf f)
  case Nil
  then show ?case by simp
next
  case (Cons key ks)
  then obtain e where e: "ws key = Some e"
    by auto
  have sub: "set ks \<subseteq> dom ws"
    using Cons.prems(1) by simp
  show ?case
  proof (cases "fits (length buf) e")
    case False
    then have "err = ErrBufferShort"
      using Cons.prems(2) e by (simp add: log_loop_short del: log_loop.simps)
    then show ?thesis
      using False e by auto
  next
    case True
    let ?buf = "entry_bytes e @ drop (length (entry_bytes e)) buf"
    have len: "length ?buf = length buf"
      using True by (simp add: fits_entry_bytes)
    show ?thesis
    proof (cases "fst (next_outcome io)")
      case IoOk
      have "log_loop ws ks (tl io) ?buf (f @ entry_bytes e) = (io', buf', f', Some err)"
        using Cons.prems(2) log_loop_ok [of ws key e buf io ks f] e True IoOk
        by (simp del: log_loop.simps)
      from Cons.IH [OF sub this, unfolded len] show ?thesis
      proof
        assume "err = ErrBufferShort \<and> (\<exists>k e. k \<in> set ks \<and> ws k = Some e \<and> \<not> fits (length buf) e)"
        then show ?thesis by auto
      next
        assume "\<exists>n m. err = ErrIO n \<and> IoFail n m \<in> set (take (length ks) (tl io))"
        then obtain n m where "err = ErrIO n" "IoFail n m \<in> set (take (length ks) (tl io))"
          by blast
        then have "err = ErrIO n \<and> IoFail n m \<in> set (take (length (key # ks)) io)"
          by (simp add: in_take_tl)
        then show ?thesis
          by blast
      qed
    next
      case (IoFail n m)
      then have "err = ErrIO n"
        using Cons.prems(2) e True by (simp add: log_loop_fail del: log_loop.simps)
      moreover have "IoFail n m \<in> set (take (length (key # ks)) io)"
        using next_outcome_fail [OF IoFail] by (cases io) simp_all
      ultimately show ?thesis
        by blast
    qed
  qed
qed

lemma txn_inv_wal: "txn_inv (txn\<lparr>wal := w\<rparr>) = txn_inv txn"
  by (simp add: txn_inv_def)

lemma marker_Serialize:
  "1 \<le> length buf \<Longrightarrow>
     RecordLog_Serialize \<lparr>Action = LCommit, Rec = r\<rparr> buf = (buf[0 := LCommit], Inr 1)"
  by (simp add: RecordLog_Serialize_marker LRead_def LCommit_def)

lemma take_1_update: "Suc 0 \<le> length buf \<Longrightarrow> take (Suc 0) (buf[0 := a]) = [a]"
  by (cases buf) simp_all

lemma Txn_Commit_empty: "writeSet txn = Map.empty \<Longrightarrow> Txn_Commit io ks1 ks2 txn = (txn, None)"
  by (simp add: Txn_Commit_def)

lemma Txn_Commit_log_failed:
  assumes "writeSet txn \<noteq> Map.empty"
    and "log_loop (writeSet txn) ks1 io (replicate 4096 0) (wal txn) = (io1, buf1, f1, Some err)"
  shows "Txn_Commit io ks1 ks2 txn = (txn\<lparr>wal := f1\<rparr>, Some err)"
  using assms by (simp add: Txn_Commit_def)

lemma Txn_Commit_logged:
  assumes "writeSet txn \<noteq> Map.empty"
    and "log_loop (writeSet txn) ks1 io (replicate 4096 0) (wal txn) = (io1, buf1, f1, None)"
    and "length buf1 = 4096"
  shows "Txn_Commit io ks1 ks2 txn =
           (case fst (next_outcome io1) of
              IoFail n m \<Rightarrow> (txn\<lparr>wal := f1 @ take m [LCommit]\<rparr>, Some (ErrIO n))
            | IoOk \<Rightarrow>
                (case fst (next_outcome (tl io1)) of
                   IoFail n m \<Rightarrow> (txn\<lparr>wal := f1 @ [LCommit]\<rparr>, Some (ErrIO n))
                 | IoOk \<Rightarrow> apply_loop ks2 (txn\<lparr>wal := f1 @ [LCommit]\<rparr>)))"
  using assms
  by (simp add: Txn_Commit_def marker_Serialize take_1_update snd_next_outcome
      split: io_outcome.splits)

lemma apply_loop_other:
  "writeSet txn key = Some e \<Longrightarrow> \<not> pending (Action e) \<Longrightarrow>
     apply_loop (key # ks) txn = (txn, Some (ErrUnexpected (Action e)))"
  by (simp add: pending_def)

lemma apply_loop_pending:
  assumes "writeSet txn key = Some e" "pending (Action e)"
  shows "\<exists>d. apply_loop (key # ks) txn =
           apply_loop ks (txn\<lparr>db := d, writeSet := (writeSet txn)(key := None)\<rparr>)"
  using assms by (auto simp add: pending_def Let_def)

lemma apply_loop_success_pending:
  assumes "apply_loop ks txn = (txn', None)" "k \<in> set ks" "writeSet txn k = Some e"
  shows "pending (Action e)"
  using assms
proof (induction ks arbitrary: txn)
  case Nil
  then show ?case by simp
next
  case (Cons key ks)
  show ?case
  proof (cases "writeSet txn key")
    case None
    then have "k \<in> set ks"
      using Cons.prems by auto
    moreover have "apply_loop ks txn = (txn', None)"
      using Cons.prems(1) None by simp
    ultimately show ?thesis
      using Cons.IH Cons.prems(3) by blast
  next
    case (Some e0)
    have p: "pending (Action e0)"
    proof (rule ccontr)
      assume "\<not> pending (Action e0)"
      from apply_loop_other [OF Some this] Cons.prems(1) show False
        by (simp del: apply_loop.simps)
    qed
    show ?thesis
    proof (cases "k = key")
      case True
      then show ?thesis
        using p Some Cons.prems(3) by simp
    next
      case False
      obtain d where "apply_loop (key # ks) txn =
          apply_loop ks (txn\<lparr>db := d, writeSet := (writeSet txn)(key := None)\<rparr>)"
        using apply_loop_pending [OF Some p] by blast
      then have "apply_loop ks (txn\<lparr>db := d, writeSet := (writeSet txn)(key := None)\<rparr>)
                   = (txn', None)"
        using Cons.prems(1) by (simp del: apply_loop.simps)
      moreover have "writeSet (txn\<lparr>db := d, writeSet := (writeSet txn)(key := None)\<rparr>) k = Some e"
        using False Cons.prems(3) by simp
      moreover have "k \<in> set ks"
        using False Cons.prems(2) by simp
      ultimately show ?thesis
        using Cons.IH by blast
    qed
  qed
qed

lemma apply_loop_error: "snd (apply_loop ks txn) = Some err \<Longrightarrow> \<exists>a. err = ErrUnexpected a"
  by (induction ks txn rule: apply_loop.induct)
    (auto simp add: Let_def split: option.splits if_splits)

lemma two_outcomes:
  "set (take 2 io) \<subseteq> {IoOk} \<longleftrightarrow>
     fst (next_outcome io) = IoOk \<and> fst (next_outcome (tl io)) = IoOk"
proof (cases io)
  case Nil
  then show ?thesis by simp
next
  case (Cons a io')
  then show ?thesis
    by (cases io') (auto simp add: numeral_2_eq_2)
qed

lemma take_add_set: "set (take (n + m) xs) = set (take n xs) \<union> set (take m (drop n xs))"
  by (simp add: take_add)

lemma txn_inv_Commit:
  assumes "txn_inv txn"
  shows "txn_inv (fst (Txn_Commit io ks1 ks2 txn))"
proof (cases "writeSet txn = Map.empty")
  case True
  then show ?thesis
    using assms by (simp add: Txn_Commit_empty)
next
  case False
  obtain io1 buf1 f1 r where l:
    "log_loop (writeSet txn) ks1 io (replicate 4096 0) (wal txn) = (io1, buf1, f1, r)"
    by (cases "log_loop (writeSet txn) ks1 io (replicate 4096 0) (wal txn)") auto
  have inv: "txn_inv (fst (apply_loop ks2 (txn\<lparr>wal := w\<rparr>)))" for w
    using apply_loop_inv [of "txn\<lparr>wal := w\<rparr>" ks2] assms by (simp add: txn_inv_wal)
  show ?thesis
    using False l assms inv
    by (auto simp add: Txn_Commit_def txn_inv_wal
        split: option.splits prod.splits sum.splits)
qed

lemma reachable_inv: "reachable txn \<Longrightarrow> txn_inv txn"
proof (induction rule: reachable.induct)
  case (reach_NewTxn w)
  show ?case by (rule txn_inv_NewTxn)
next
  case (reach_Insert txn key val)
  then show ?case by (simp add: txn_inv_Insert)
next
  case (reach_Update txn key val)
  then show ?case by (simp add: txn_inv_Update)
next
  case (reach_Delete txn key)
  then show ?case by (simp add: txn_inv_Delete)
next
  case (reach_Commit txn ks1 ks2 io)
  then show ?case by (simp add: txn_inv_Commit)
next
  case (reach_Abort txn ks)
  then show ?case by (simp add: txn_inv_Abort)
qed

lemma in_take2_first: "fst (next_outcome io) = IoFail n m \<Longrightarrow> IoFail n m \<in> set (take 2 io)"
  by (cases io) (simp_all add: numeral_2_eq_2)

lemma in_take2_second:
  "fst (next_outcome (tl io)) = IoFail n m \<Longrightarrow> IoFail n m \<in> set (take 2 io)"
proof (cases io)
  case Nil
  then show "fst (next_outcome (tl io)) = IoFail n m \<Longrightarrow> ?thesis" by simp
next
  case (Cons a io')
  then show "fst (next_outcome (tl io)) = IoFail n m \<Longrightarrow> ?thesis"
    by (cases io') (simp_all add: numeral_2_eq_2)
qed

lemma Txn_Commit_cases:
  assumes ne: "writeSet txn \<noteq> Map.empty" and sub: "set ks1 \<subseteq> dom (writeSet txn)"
  shows "(\<exists>f1 err. Txn_Commit io ks1 ks2 txn = (txn\<lparr>wal := f1\<rparr>, Some err) \<and>
            (err = ErrBufferShort \<and>
               (\<exists>k e. k \<in> set ks1 \<and> writeSet txn k = Some e \<and> \<not> fits 4096 e) \<or>
             (\<exists>n m. err = ErrIO n \<and> IoFail n m \<in> set (take (length ks1 + 2) io)))) \<or>
         ((\<forall>k e. k \<in> set ks1 \<longrightarrow> writeSet txn k = Some e \<longrightarrow> fits 4096 e) \<and>
          set (take (length ks1 + 2) io) \<subseteq> {IoOk} \<and>
          Txn_Commit io ks1 ks2 txn =
            apply_loop ks2 (txn\<lparr>wal := wal txn @ logged (writeSet txn) ks1\<rparr>))"
proof -
  obtain io1 buf1 f1 r where l:
    "log_loop (writeSet txn) ks1 io (replicate 4096 0) (wal txn) = (io1, buf1, f1, r)"
    by (cases "log_loop (writeSet txn) ks1 io (replicate 4096 0) (wal txn)") auto
  show ?thesis
  proof (cases r)
    case (Some err)
    have c: "Txn_Commit io ks1 ks2 txn = (txn\<lparr>wal := f1\<rparr>, Some err)"
      using ne l Some by (simp add: Txn_Commit_log_failed)
    have mono: "set (take (length ks1) io) \<subseteq> set (take (length ks1 + 2) io)"
      by (rule set_take_subset_set_take) simp
    from log_loop_failure [OF sub l [unfolded Some]]
    have "err = ErrBufferShort \<and>
            (\<exists>k e. k \<in> set ks1 \<and> writeSet txn k = Some e \<and> \<not> fits 4096 e) \<or>
          (\<exists>n m. err = ErrIO n \<and> IoFail n m \<in> set (take (length ks1 + 2) io))"
      using mono by (simp only: length_replicate) blast
    then show ?thesis
      using c by blast
  next
    case None
    from log_loop_success [OF sub l [unfolded None]] have
      a: "\<forall>k e. k \<in> set ks1 \<longrightarrow> writeSet txn k = Some e \<longrightarrow> fits 4096 e" and
      b: "set (take (length ks1) io) \<subseteq> {IoOk}" and
      c: "io1 = drop (length ks1) io" and
      d: "length buf1 = 4096" and
      g: "f1 = wal txn @ concat (map (\<lambda>k. entry_bytes (the (writeSet txn k))) ks1)"
      by simp_all
    note eq = Txn_Commit_logged [OF ne l [unfolded None] d, of ks2]
    have w: "f1 @ [LCommit] = wal txn @ logged (writeSet txn) ks1"
      by (simp add: g logged_def)
    show ?thesis
    proof (cases "fst (next_outcome io1)")
      case (IoFail n m)
      have "IoFail n m \<in> set (take (length ks1 + 2) io)"
        using in_take2_first [OF IoFail] by (simp only: take_add_set c) blast
      then show ?thesis
        using eq IoFail by auto
    next
      case IoOk
      show ?thesis
      proof (cases "fst (next_outcome (tl io1))")
        case (IoFail n m)
        have "IoFail n m \<in> set (take (length ks1 + 2) io)"
          using in_take2_second [OF IoFail] by (simp only: take_add_set c) blast
        then show ?thesis
          using eq IoOk IoFail by auto
      next
        case IoOk2: IoOk
        have "set (take 2 io1) \<subseteq> {IoOk}"
          using IoOk IoOk2 by (simp add: two_outcomes)
        then have "set (take (length ks1 + 2) io) \<subseteq> {IoOk}"
          using b by (simp only: take_add_set c) blast
        then show ?thesis
          using eq IoOk IoOk2 a w by simp
      qed
    qed
  qed
qed

lemma enumerates_sub: "enumerates ks m \<Longrightarrow> set ks \<subseteq> dom m"
  by (simp add: enumerates_def)

lemma enumerates_mem: "enumerates ks m \<Longrightarrow> m k = Some e \<Longrightarrow> k \<in> set ks"
  by (auto simp add: enumerates_def)

lemma apply_pending_outside: "ws k = None \<Longrightarrow> apply_pending d ws k = d k"
  by (simp add: apply_pending_def)

lemma Txn_Commit_applied:
  assumes inv: "txn_inv txn" and ne: "writeSet txn \<noteq> Map.empty"
    and en: "enumerates ks2 (writeSet txn)"
    and c: "Txn_Commit io ks1 ks2 txn = apply_loop ks2 (txn\<lparr>wal := w\<rparr>)"
  shows "snd (Txn_Commit io ks1 ks2 txn) = None \<and>
         wal (fst (Txn_Commit io ks1 ks2 txn)) = w \<and>
         db (fst (Txn_Commit io ks1 ks2 txn)) = apply_pending (db txn) (writeSet txn) \<and>
         writeSet (fst (Txn_Commit io ks1 ks2 txn)) = Map.empty"
proof -
  have inv': "txn_inv (txn\<lparr>wal := w\<rparr>)"
    using inv by (simp add: txn_inv_wal)
  have mem: "k \<in> set ks2 \<longleftrightarrow> writeSet txn k \<noteq> None" for k
    using en by (auto simp add: enumerates_def)
  have "(\<lambda>k. if k \<in> set ks2 then apply_pending (db txn) (writeSet txn) k else db txn k)
          = apply_pending (db txn) (writeSet txn)"
    by (auto simp add: fun_eq_iff mem apply_pending_outside)
  moreover have "(\<lambda>k. if k \<in> set ks2 then None else writeSet txn k) = Map.empty"
    by (auto simp add: fun_eq_iff mem)
  ultimately show ?thesis
    using apply_loop_inv [OF inv', of ks2] by (simp add: c cong: if_cong)
qed

lemma map_upd_other:
  "k \<notin> set ks \<Longrightarrow> map (\<lambda>k'. f ((m(k := None)) k')) ks = map (\<lambda>k'. f (m k')) ks"
  by (induction ks) auto

lemma wal_Abort: "wal (Txn_Abort ks txn) = wal txn"
  by (simp add: Txn_Abort_def)

lemma Txn_Commit_success_log:
  assumes en1: "enumerates ks1 (writeSet txn)" and en2: "enumerates ks2 (writeSet txn)"
    and ne: "writeSet txn \<noteq> Map.empty"
    and c: "Txn_Commit io ks1 ks2 txn = (txn', None)"
  shows "(\<forall>k \<in> set ks1. pending (Action (the (writeSet txn k)))) \<and>
         wal txn' = wal txn @ concat (map (\<lambda>k. wire_RecordLog (the (writeSet txn k))) ks1) @ [5]"
proof -
  from Txn_Commit_cases [OF ne enumerates_sub [OF en1], of io ks2] c
  have a: "apply_loop ks2 (txn\<lparr>wal := wal txn @ logged (writeSet txn) ks1\<rparr>) = (txn', None)"
    by auto
  have p: "pending (Action (the (writeSet txn k)))" if "k \<in> set ks1" for k
  proof -
    have "k \<in> dom (writeSet txn)"
      using that en1 by (simp add: enumerates_def)
    then obtain e where e: "writeSet txn k = Some e"
      by blast
    have "k \<in> set ks2"
      using en2 e by (rule enumerates_mem)
    with a have "pending (Action e)"
      using e by (auto intro: apply_loop_success_pending)
    then show ?thesis
      using e by simp
  qed
  have m: "map (\<lambda>k. entry_bytes (the (writeSet txn k))) ks1
          = map (\<lambda>k. wire_RecordLog (the (writeSet txn k))) ks1"
    using p by (simp add: entry_bytes_pending)
  have "logged (writeSet txn) ks1
          = concat (map (\<lambda>k. wire_RecordLog (the (writeSet txn k))) ks1) @ [5]"
    unfolding logged_def m by (simp add: LCommit_def)
  moreover have "wal txn' = wal txn @ logged (writeSet txn) ks1"
    using apply_loop_wal [of ks2 "txn\<lparr>wal := wal txn @ logged (writeSet txn) ks1\<rparr>"] a
    by simp
  ultimately show ?thesis
    using p by simp
qed

lemma Txn_Commit_no_unexpected:
  assumes inv: "txn_inv txn" and en: "enumerates ks1 (writeSet txn)"
  shows "snd (Txn_Commit io ks1 ks2 txn) \<noteq> Some (ErrUnexpected a)"
proof (cases "writeSet txn = Map.empty")
  case True
  then show ?thesis
    by (simp add: Txn_Commit_empty)
next
  case False
  have ap: "snd (apply_loop ks2 (txn\<lparr>wal := w\<rparr>)) = None" for w
    using apply_loop_inv [of "txn\<lparr>wal := w\<rparr>" ks2] inv by (simp add: txn_inv_wal)
  from Txn_Commit_cases [OF False enumerates_sub [OF en], of io ks2] show ?thesis
  proof
    assume "\<exists>f1 err. Txn_Commit io ks1 ks2 txn = (txn\<lparr>wal := f1\<rparr>, Some err) \<and>
            (err = ErrBufferShort \<and>
               (\<exists>k e. k \<in> set ks1 \<and> writeSet txn k = Some e \<and> \<not> fits 4096 e) \<or>
             (\<exists>n m. err = ErrIO n \<and> IoFail n m \<in> set (take (length ks1 + 2) io)))"
    then obtain f1 err where
      c: "Txn_Commit io ks1 ks2 txn = (txn\<lparr>wal := f1\<rparr>, Some err)" and
      k: "err = ErrBufferShort \<or> (\<exists>n. err = ErrIO n)"
      by blast
    from k have "err \<noteq> ErrUnexpected a"
      by auto
    then show ?thesis
      by (simp add: c)
  next
    assume "(\<forall>k e. k \<in> set ks1 \<longrightarrow> writeSet txn k = Some e \<longrightarrow> fits 4096 e) \<and>
          set (take (length ks1 + 2) io) \<subseteq> {IoOk} \<and>
          Txn_Commit io ks1 ks2 txn =
            apply_loop ks2 (txn\<lparr>wal := wal txn @ logged (writeSet txn) ks1\<rparr>)"
    then have "Txn_Commit io ks1 ks2 txn =
            apply_loop ks2 (txn\<lparr>wal := wal txn @ logged (writeSet txn) ks1\<rparr>)"
      by blast
    then show ?thesis
      by (simp add: ap)
  qed
qed

section \<open>The example states\<close>

lemma Txn_Commit_all_ok:
  assumes inv: "txn_inv txn" and ne: "writeSet txn \<noteq> Map.empty"
    and en1: "enumerates ks1 (writeSet txn)" and en2: "enumerates ks2 (writeSet txn)"
    and fit: "\<forall>k e. writeSet txn k = Some e \<longrightarrow> fits 4096 e"
    and ok: "set (take (length ks1 + 2) io) \<subseteq> {IoOk}"
  shows "snd (Txn_Commit io ks1 ks2 txn) = None \<and>
         wal (fst (Txn_Commit io ks1 ks2 txn)) = wal txn @ logged (writeSet txn) ks1 \<and>
         db (fst (Txn_Commit io ks1 ks2 txn)) = apply_pending (db txn) (writeSet txn) \<and>
         writeSet (fst (Txn_Commit io ks1 ks2 txn)) = Map.empty"
proof -
  from Txn_Commit_cases [OF ne enumerates_sub [OF en1], of io ks2]
  have "Txn_Commit io ks1 ks2 txn =
          apply_loop ks2 (txn\<lparr>wal := wal txn @ logged (writeSet txn) ks1\<rparr>)"
  proof
    assume "\<exists>f1 err. Txn_Commit io ks1 ks2 txn = (txn\<lparr>wal := f1\<rparr>, Some err) \<and>
            (err = ErrBufferShort \<and>
               (\<exists>k e. k \<in> set ks1 \<and> writeSet txn k = Some e \<and> \<not> fits 4096 e) \<or>
             (\<exists>n m. err = ErrIO n \<and> IoFail n m \<in> set (take (length ks1 + 2) io)))"
    then have False
      using fit ok by blast
    then show ?thesis ..
  next
    assume "(\<forall>k e. k \<in> set ks1 \<longrightarrow> writeSet txn k = Some e \<longrightarrow> fits 4096 e) \<and>
          set (take (length ks1 + 2) io) \<subseteq> {IoOk} \<and>
          Txn_Commit io ks1 ks2 txn =
            apply_loop ks2 (txn\<lparr>wal := wal txn @ logged (writeSet txn) ks1\<rparr>)"
    then show ?thesis by blast
  qed
  from Txn_Commit_applied [OF inv ne en2 this] show ?thesis .
qed

lemma writeSet_ex_insert:
  "writeSet ex_insert = [''key1'' \<mapsto> \<lparr>Action = LInsert, Rec = \<lparr>Key = ''key1'', Value = [1]\<rparr>\<rparr>]"
  by (simp add: ex_insert_def Txn_Insert_def NewTxn_def clone_id)

lemma db_ex_insert: "db ex_insert = Map.empty"
  by (simp add: ex_insert_def Txn_Insert_def NewTxn_def)

lemma wal_ex_insert: "wal ex_insert = []"
  by (simp add: ex_insert_def Txn_Insert_def NewTxn_def)

lemma reachable_ex_insert: "reachable ex_insert"
  unfolding ex_insert_def by (intro reachable.intros)

lemma enumerates_ex_insert: "enumerates [''key1''] (writeSet ex_insert)"
  by (simp add: enumerates_def writeSet_ex_insert)

lemma writeSet_ex_two:
  "writeSet ex_two =
     [''key1'' \<mapsto> \<lparr>Action = LInsert, Rec = \<lparr>Key = ''key1'', Value = [1]\<rparr>\<rparr>,
      ''key3'' \<mapsto> \<lparr>Action = LInsert, Rec = \<lparr>Key = ''key3'', Value = [3]\<rparr>\<rparr>]"
  by (simp add: ex_two_def Txn_Insert_def writeSet_ex_insert db_ex_insert clone_id)

lemma db_ex_two: "db ex_two = Map.empty"
  by (simp add: ex_two_def Txn_Insert_def writeSet_ex_insert db_ex_insert)

lemma wal_ex_two: "wal ex_two = []"
  by (simp add: ex_two_def Txn_Insert_def writeSet_ex_insert db_ex_insert wal_ex_insert)

lemma reachable_ex_two: "reachable ex_two"
  unfolding ex_two_def by (intro reachable.intros reachable_ex_insert)

lemma ex_insert_commit:
  "snd (Txn_Commit [] [''key1''] [''key1''] ex_insert) = None \<and>
   wal ex_committed = [1, 4, 0, 0, 0, 1, 107, 101, 121, 49, 1, 5] \<and>
   db ex_committed = [''key1'' \<mapsto> \<lparr>Key = ''key1'', Value = [1]\<rparr>] \<and>
   writeSet ex_committed = Map.empty"
proof -
  have ne: "writeSet ex_insert \<noteq> Map.empty"
    by (simp add: writeSet_ex_insert)
  have fit: "\<forall>k e. writeSet ex_insert k = Some e \<longrightarrow> fits 4096 e"
    by (simp add: writeSet_ex_insert fits_def)
  have ok: "set (take (length [''key1''] + 2) []) \<subseteq> {IoOk}"
    by simp
  have ap: "apply_pending (db ex_insert) (writeSet ex_insert)
              = [''key1'' \<mapsto> \<lparr>Key = ''key1'', Value = [1]\<rparr>]"
    by (simp add: fun_eq_iff apply_pending_def writeSet_ex_insert db_ex_insert)
  have lg: "logged (writeSet ex_insert) [''key1''] = [1, 4, 0, 0, 0, 1, 107, 101, 121, 49, 1, 5]"
    by (simp add: logged_def entry_bytes_def wire_Record_def be32_def bytes_of_string_def
        writeSet_ex_insert LInsert_def LRead_def LCommit_def)
  show ?thesis
    using Txn_Commit_all_ok [OF reachable_inv [OF reachable_ex_insert] ne
        enumerates_ex_insert enumerates_ex_insert fit ok]
    by (simp add: ex_committed_def ap lg wal_ex_insert)
qed

lemma reachable_ex_committed: "reachable ex_committed"
  unfolding ex_committed_def
  by (intro reachable.intros reachable_ex_insert enumerates_ex_insert)

lemma writeSet_ex_delete:
  "writeSet ex_delete = [''key1'' \<mapsto> \<lparr>Action = LDelete, Rec = \<lparr>Key = ''key1'', Value = []\<rparr>\<rparr>]"
  by (simp add: ex_delete_def Txn_Delete_def ex_insert_commit)

lemma db_ex_delete: "db ex_delete = [''key1'' \<mapsto> \<lparr>Key = ''key1'', Value = [1]\<rparr>]"
  by (simp add: ex_delete_def Txn_Delete_def ex_insert_commit)

lemma reachable_ex_delete: "reachable ex_delete"
  unfolding ex_delete_def by (intro reachable.intros reachable_ex_committed)

section \<open>The claims\<close>

text \<open>
  C3 does not hold of the code. It says: a record with a key of at most 255 bytes and a value
  of at most \<open>2^32 - 1\<close> bytes, serialized into a large enough buffer and deserialized from
  it, comes back equal, with the same byte count. For a key of 251 bytes and an empty
  value \<^verbatim>\<open>Serialize\<close> writes the 256 bytes of the wire format, and \<^verbatim>\<open>Deserialize\<close> of these
  bytes panics: the index \<^verbatim>\<open>5+keyLen\<close> is computed in \<^verbatim>\<open>uint8\<close> and wraps around to 0, so
  the slice expression is \<^verbatim>\<open>buf[5:0]\<close>. The receiver is left as it was.
\<close>

theorem C3_roundtrip_key_251_panics:
  "Record_Serialize \<lparr>Key = replicate 251 CHR ''a'', Value = []\<rparr> (replicate 256 0)
     = (wire_Record \<lparr>Key = replicate 251 CHR ''a'', Value = []\<rparr>, Inr 256) \<and>
   Record_Deserialize \<lparr>Key = [], Value = []\<rparr>
       (fst (Record_Serialize \<lparr>Key = replicate 251 CHR ''a'', Value = []\<rparr> (replicate 256 0)))
     = (\<lparr>Key = [], Value = []\<rparr>, Inl (PanicSliceBounds 5 0))"
  using Record_Deserialize_wire_panic
    [of "\<lparr>Key = replicate 251 CHR ''a'', Value = []\<rparr>" "\<lparr>Key = [], Value = []\<rparr>" "[]"]
  by (simp add: Record_Serialize_fits length_wire_Record)

text \<open>
  C5 as stated, for every action tag of at least 4, fails at the tag
  \<^verbatim>\<open>LRead\<close> = 4: the guard of \<^verbatim>\<open>RecordLog.Serialize\<close> is \<^verbatim>\<open>r.Action > LRead\<close>, so an entry
  tagged \<^verbatim>\<open>LRead\<close> is written with its record, here six bytes into a buffer of seven.
\<close>

theorem C5_read_tag_counterexample:
  "LRead \<le> Action \<lparr>Action = LRead, Rec = \<lparr>Key = [], Value = []\<rparr>\<rparr> \<and>
   1 \<le> length [7, 7, 7, 7, 7, 7, 7 :: byte] \<and>
   RecordLog_Serialize \<lparr>Action = LRead, Rec = \<lparr>Key = [], Value = []\<rparr>\<rparr> [7, 7, 7, 7, 7, 7, 7]
     = ([4, 0, 0, 0, 0, 0, 7], Inr 6) \<and>
   RecordLog_Serialize \<lparr>Action = LRead, Rec = \<lparr>Key = [], Value = []\<rparr>\<rparr> [7, 7, 7, 7, 7, 7, 7]
     \<noteq> ([7, 7, 7, 7, 7, 7, 7][0 := LRead], Inr 1)"
  by (simp add: RecordLog_Serialize_def Record_Serialize_def LRead_def bytes_of_string_def
      PutUint32_def copy_def)

text \<open>
  C5 as amended: for every log entry whose action tag is above \<^verbatim>\<open>LRead\<close> = 4 (that is, at
  least 5: Commit, Abort and every higher tag), \<^verbatim>\<open>RecordLog.Serialize\<close> into a buffer of
  at least one byte writes the tag byte at index 0, leaves every other byte of the buffer
  as it was, and returns 1.
\<close>

theorem C5_serialize_tag_only:
  "LRead < Action e \<Longrightarrow> 1 \<le> length buf \<Longrightarrow>
     RecordLog_Serialize e buf = (buf[0 := Action e], Inr 1)"
  by (rule RecordLog_Serialize_marker)

theorem C5_serialize_tag_only_witness:
  "LRead < Action \<lparr>Action = LAbort, Rec = \<lparr>Key = ''k'', Value = [9]\<rparr>\<rparr> \<and>
   1 \<le> length [7, 7, 7 :: byte] \<and>
   RecordLog_Serialize \<lparr>Action = LAbort, Rec = \<lparr>Key = ''k'', Value = [9]\<rparr>\<rparr> [7, 7, 7]
     = ([6, 7, 7], Inr 1)"
  using C5_serialize_tag_only
    [of "\<lparr>Action = LAbort, Rec = \<lparr>Key = ''k'', Value = [9]\<rparr>\<rparr>" "[7, 7, 7]"]
  by (simp add: LRead_def LAbort_def)

text \<open>
  C8. \<^verbatim>\<open>Record.Serialize\<close> into a buffer shorter than \<open>5 + len(key) + len(value)\<close> returns
  \<^verbatim>\<open>ErrBufferShort\<close> and the buffer is unchanged; \<^verbatim>\<open>Record.Deserialize\<close> from a buffer of
  fewer than 5 bytes, or of fewer bytes than the total \<open>5 + key_len + value_len\<close> that its
  header declares, returns \<^verbatim>\<open>ErrBufferShort\<close> (and leaves the receiver unchanged).
\<close>

theorem C8_buffer_too_short:
  "(length buf < 5 + length (Key r) + length (Value r) \<longrightarrow>
      Record_Serialize r buf = (buf, Inl ErrBufferShort)) \<and>
   (length buf < 5 \<or> length buf < 5 + unat (buf ! 0) + unat (Uint32 (drop 1 buf)) \<longrightarrow>
      Record_Deserialize r0 buf = (r0, Inl ErrBufferShort))"
  by (auto simp add: Record_Serialize_def Record_Deserialize_def Let_def length_bytes_of_string)

theorem C8_buffer_too_short_witness:
  "length [2, 0, 0, 0, 1, 7 :: byte] < 5 + length (Key \<lparr>Key = ''ab'', Value = [9]\<rparr>)
       + length (Value \<lparr>Key = ''ab'', Value = [9]\<rparr>) \<and>
   Record_Serialize \<lparr>Key = ''ab'', Value = [9]\<rparr> [2, 0, 0, 0, 1, 7]
     = ([2, 0, 0, 0, 1, 7], Inl ErrBufferShort) \<and>
   length [2, 0, 0, 0, 1, 7 :: byte]
     < 5 + unat ([2, 0, 0, 0, 1, 7 :: byte] ! 0) + unat (Uint32 (drop 1 [2, 0, 0, 0, 1, 7])) \<and>
   Record_Deserialize \<lparr>Key = [], Value = []\<rparr> [2, 0, 0, 0, 1, 7]
     = (\<lparr>Key = [], Value = []\<rparr>, Inl ErrBufferShort)"
  using C8_buffer_too_short [of "[2, 0, 0, 0, 1, 7]" "\<lparr>Key = ''ab'', Value = [9]\<rparr>" "\<lparr>Key = [], Value = []\<rparr>"]
  by (simp add: Uint32_def)

text \<open>
  C1. In every state of the engine, when \<^verbatim>\<open>Commit\<close> returns nil the db is the db before
  the call with every pending entry applied (the record of a pending Insert or Update
  stored under its key, the key of a pending Delete removed, every other key unchanged),
  and the write-set is empty; on an empty write-set \<^verbatim>\<open>Commit\<close> returns nil and changes
  nothing. The states of the engine are those that \<^verbatim>\<open>NewTxn\<close> and the methods produce.
\<close>

theorem C1_commit_applies_writeSet:
  assumes "reachable txn" "enumerates ks1 (writeSet txn)" "enumerates ks2 (writeSet txn)"
  shows "(Txn_Commit io ks1 ks2 txn = (txn', None) \<longrightarrow>
            db txn' = apply_pending (db txn) (writeSet txn) \<and> writeSet txn' = Map.empty) \<and>
         (writeSet txn = Map.empty \<longrightarrow> Txn_Commit io ks1 ks2 txn = (txn, None))"
proof (cases "writeSet txn = Map.empty")
  case True
  have "apply_pending (db txn) Map.empty = db txn"
    by (simp add: apply_pending_def)
  then show ?thesis
    using True by (auto simp add: Txn_Commit_empty)
next
  case False
  have inv: "txn_inv txn"
    using assms(1) by (rule reachable_inv)
  show ?thesis
  proof (intro conjI impI)
    assume c: "Txn_Commit io ks1 ks2 txn = (txn', None)"
    from Txn_Commit_cases [OF False enumerates_sub [OF assms(2)], of io ks2]
    obtain w where "Txn_Commit io ks1 ks2 txn = apply_loop ks2 (txn\<lparr>wal := w\<rparr>)"
      using c by auto
    from Txn_Commit_applied [OF inv False assms(3) this]
    show "db txn' = apply_pending (db txn) (writeSet txn)" and "writeSet txn' = Map.empty"
      using c by simp_all
  next
    assume "writeSet txn = Map.empty"
    then show "Txn_Commit io ks1 ks2 txn = (txn, None)"
      using False by simp
  qed
qed

theorem C1_commit_applies_writeSet_witness:
  "reachable ex_insert \<and> enumerates [''key1''] (writeSet ex_insert) \<and>
   Txn_Commit [] [''key1''] [''key1''] ex_insert = (ex_committed, None) \<and>
   db ex_committed = apply_pending (db ex_insert) (writeSet ex_insert) \<and>
   db ex_committed ''key1'' = Some \<lparr>Key = ''key1'', Value = [1]\<rparr> \<and>
   writeSet ex_committed = Map.empty \<and>
   reachable (NewTxn []) \<and> writeSet (NewTxn []) = Map.empty \<and>
   Txn_Commit [] [] [] (NewTxn []) = (NewTxn [], None)"
proof -
  have c: "Txn_Commit [] [''key1''] [''key1''] ex_insert = (ex_committed, None)"
    using ex_insert_commit by (simp add: ex_committed_def prod_eq_iff)
  have e: "enumerates [] (writeSet (NewTxn []))"
    by (simp add: enumerates_def NewTxn_def)
  have w: "writeSet (NewTxn []) = Map.empty"
    by (simp add: NewTxn_def)
  note th = C1_commit_applies_writeSet
      [OF reachable_ex_insert enumerates_ex_insert enumerates_ex_insert, of "[]" ex_committed]
  note th0 = C1_commit_applies_writeSet [OF reach_NewTxn e e, of "[]" "NewTxn []"]
  have d: "db ex_committed = apply_pending (db ex_insert) (writeSet ex_insert)"
    using th c by blast
  have d1: "db ex_committed ''key1'' = Some \<lparr>Key = ''key1'', Value = [1]\<rparr>"
    using ex_insert_commit by simp
  have ws: "writeSet ex_committed = Map.empty"
    using th c by blast
  have c0: "Txn_Commit [] [] [] (NewTxn []) = (NewTxn [], None)"
    using th0 w by blast
  show ?thesis
    by (intro conjI)
      (fact reachable_ex_insert enumerates_ex_insert c d d1 ws reach_NewTxn w c0)+
qed

text \<open>
  C2. A commit of a non-empty write-set makes one append per pending entry, one append of
  the commit marker and one sync: \<open>length ks1 + 2\<close> file operations when none fails. If a
  pending entry does not fit the buffer of 4096 bytes, or one of these file operations
  is bound to fail, then \<^verbatim>\<open>Commit\<close> returns an error, which is \<^verbatim>\<open>ErrBufferShort\<close> for an
  entry that does not fit or the error of a failing file operation, and the db and the
  write-set are as they were before the call.
\<close>

theorem C2_commit_failure_atomic:
  assumes en: "enumerates ks1 (writeSet txn)" and ne: "writeSet txn \<noteq> Map.empty"
    and fail: "(\<exists>k e. writeSet txn k = Some e \<and> \<not> fits 4096 e) \<or>
               (\<exists>out \<in> set (take (length ks1 + 2) io). out \<noteq> IoOk)"
  shows "\<exists>err. snd (Txn_Commit io ks1 ks2 txn) = Some err \<and>
           (err = ErrBufferShort \<and> (\<exists>k e. writeSet txn k = Some e \<and> \<not> fits 4096 e) \<or>
            (\<exists>n m. err = ErrIO n \<and> IoFail n m \<in> set (take (length ks1 + 2) io))) \<and>
           db (fst (Txn_Commit io ks1 ks2 txn)) = db txn \<and>
           writeSet (fst (Txn_Commit io ks1 ks2 txn)) = writeSet txn"
proof -
  from Txn_Commit_cases [OF ne enumerates_sub [OF en], of io ks2]
  show ?thesis
  proof
    assume "\<exists>f1 err. Txn_Commit io ks1 ks2 txn = (txn\<lparr>wal := f1\<rparr>, Some err) \<and>
            (err = ErrBufferShort \<and>
               (\<exists>k e. k \<in> set ks1 \<and> writeSet txn k = Some e \<and> \<not> fits 4096 e) \<or>
             (\<exists>n m. err = ErrIO n \<and> IoFail n m \<in> set (take (length ks1 + 2) io)))"
    then obtain f1 err where
      c: "Txn_Commit io ks1 ks2 txn = (txn\<lparr>wal := f1\<rparr>, Some err)" and
      k: "err = ErrBufferShort \<and>
               (\<exists>k e. k \<in> set ks1 \<and> writeSet txn k = Some e \<and> \<not> fits 4096 e) \<or>
             (\<exists>n m. err = ErrIO n \<and> IoFail n m \<in> set (take (length ks1 + 2) io))"
      by blast
    from k have "err = ErrBufferShort \<and> (\<exists>k e. writeSet txn k = Some e \<and> \<not> fits 4096 e) \<or>
            (\<exists>n m. err = ErrIO n \<and> IoFail n m \<in> set (take (length ks1 + 2) io))"
      by blast
    then show ?thesis
      by (simp add: c)
  next
    assume ok: "(\<forall>k e. k \<in> set ks1 \<longrightarrow> writeSet txn k = Some e \<longrightarrow> fits 4096 e) \<and>
          set (take (length ks1 + 2) io) \<subseteq> {IoOk} \<and>
          Txn_Commit io ks1 ks2 txn =
            apply_loop ks2 (txn\<lparr>wal := wal txn @ logged (writeSet txn) ks1\<rparr>)"
    have "\<forall>k e. writeSet txn k = Some e \<longrightarrow> fits 4096 e"
      using ok enumerates_mem [OF en] by blast
    moreover have "\<forall>out \<in> set (take (length ks1 + 2) io). out = IoOk"
      using ok by blast
    ultimately have False
      using fail by blast
    then show ?thesis ..
  qed
qed

theorem C2_commit_failure_atomic_witness:
  "enumerates [''key1''] (writeSet ex_insert) \<and> writeSet ex_insert \<noteq> Map.empty \<and>
   IoFail 5 3 \<in> set (take (length [''key1''] + 2) [IoFail 5 3]) \<and>
   snd (Txn_Commit [IoFail 5 3] [''key1''] [''key1''] ex_insert) = Some (ErrIO 5) \<and>
   db (fst (Txn_Commit [IoFail 5 3] [''key1''] [''key1''] ex_insert)) = db ex_insert \<and>
   writeSet (fst (Txn_Commit [IoFail 5 3] [''key1''] [''key1''] ex_insert))
     = writeSet ex_insert \<and>
   enumerates [''big''] (writeSet ex_big) \<and> writeSet ex_big \<noteq> Map.empty \<and>
   \<not> fits 4096 (the (writeSet ex_big ''big'')) \<and>
   snd (Txn_Commit [] [''big''] [''big''] ex_big) = Some ErrBufferShort \<and>
   db (fst (Txn_Commit [] [''big''] [''big''] ex_big)) = db ex_big \<and>
   writeSet (fst (Txn_Commit [] [''big''] [''big''] ex_big)) = writeSet ex_big"
proof -
  have ne: "writeSet ex_insert \<noteq> Map.empty"
    by (simp add: writeSet_ex_insert)
  have f1: "(\<exists>k e. writeSet ex_insert k = Some e \<and> \<not> fits 4096 e) \<or>
            (\<exists>out \<in> set (take (length [''key1''] + 2) [IoFail 5 3]). out \<noteq> IoOk)"
    by simp
  have fit: "\<not> (\<exists>k e. writeSet ex_insert k = Some e \<and> \<not> fits 4096 e)"
    by (simp add: writeSet_ex_insert fits_def)
  have wb: "writeSet ex_big =
      [''big'' \<mapsto> \<lparr>Action = LInsert, Rec = \<lparr>Key = ''big'', Value = replicate 5000 0\<rparr>\<rparr>]"
    by (simp add: ex_big_def Txn_Insert_def NewTxn_def clone_id)
  have eb: "enumerates [''big''] (writeSet ex_big)"
    by (simp add: enumerates_def wb)
  have nb: "writeSet ex_big \<noteq> Map.empty"
    by (simp add: wb)
  have big: "\<not> fits 4096 (the (writeSet ex_big ''big''))"
    by (simp add: wb fits_def LInsert_def LRead_def)
  have f2: "(\<exists>k e. writeSet ex_big k = Some e \<and> \<not> fits 4096 e) \<or>
            (\<exists>out \<in> set (take (length [''big''] + 2) []). out \<noteq> IoOk)"
    using big by (simp add: wb)
  from C2_commit_failure_atomic [OF enumerates_ex_insert ne f1, of "[''key1'']"] fit
  have a: "snd (Txn_Commit [IoFail 5 3] [''key1''] [''key1''] ex_insert) = Some (ErrIO 5) \<and>
      db (fst (Txn_Commit [IoFail 5 3] [''key1''] [''key1''] ex_insert)) = db ex_insert \<and>
      writeSet (fst (Txn_Commit [IoFail 5 3] [''key1''] [''key1''] ex_insert))
        = writeSet ex_insert"
    by auto
  from C2_commit_failure_atomic [OF eb nb f2, of "[''big'']"]
  have b: "snd (Txn_Commit [] [''big''] [''big''] ex_big) = Some ErrBufferShort \<and>
      db (fst (Txn_Commit [] [''big''] [''big''] ex_big)) = db ex_big \<and>
      writeSet (fst (Txn_Commit [] [''big''] [''big''] ex_big)) = writeSet ex_big"
    by auto
  show ?thesis
    using a b enumerates_ex_insert ne eb nb big by simp
qed

text \<open>
  C4. When \<^verbatim>\<open>Commit\<close> of a non-empty write-set returns nil, every entry of the write-set
  is an Insert, Update or Delete, and the bytes appended to the log are the wire format
  of the entries, one for each key of the write-set in the order of the visit, followed
  by the one byte \<open>0x05\<close> of the commit marker, and nothing else. \<^verbatim>\<open>Commit\<close> of an empty
  write-set and \<^verbatim>\<open>Abort\<close> append nothing.
\<close>

theorem C4_commit_log_contents:
  assumes "enumerates ks1 (writeSet txn)" "enumerates ks2 (writeSet txn)"
  shows "(writeSet txn \<noteq> Map.empty \<and> Txn_Commit io ks1 ks2 txn = (txn', None) \<longrightarrow>
            (\<forall>k \<in> set ks1. pending (Action (the (writeSet txn k)))) \<and>
            wal txn' =
              wal txn @ concat (map (\<lambda>k. wire_RecordLog (the (writeSet txn k))) ks1) @ [5]) \<and>
         (writeSet txn = Map.empty \<longrightarrow> wal (fst (Txn_Commit io ks1 ks2 txn)) = wal txn) \<and>
         wal (Txn_Abort ks txn) = wal txn"
  using Txn_Commit_success_log [OF assms, of io txn']
  by (simp add: Txn_Commit_empty wal_Abort)

theorem C4_commit_log_contents_witness:
  "enumerates [''key3'', ''key1''] (writeSet ex_two) \<and>
   enumerates [''key1'', ''key3''] (writeSet ex_two) \<and>
   writeSet ex_two \<noteq> Map.empty \<and>
   snd (Txn_Commit [] [''key3'', ''key1''] [''key1'', ''key3''] ex_two) = None \<and>
   pending (Action (the (writeSet ex_two ''key3''))) \<and>
   wal (fst (Txn_Commit [] [''key3'', ''key1''] [''key1'', ''key3''] ex_two))
     = wal ex_two
       @ concat (map (\<lambda>k. wire_RecordLog (the (writeSet ex_two k))) [''key3'', ''key1''])
       @ [5] \<and>
   wal (fst (Txn_Commit [] [''key3'', ''key1''] [''key1'', ''key3''] ex_two))
     = [1, 4, 0, 0, 0, 1, 107, 101, 121, 51, 3, 1, 4, 0, 0, 0, 1, 107, 101, 121, 49, 1, 5] \<and>
   writeSet (NewTxn [7]) = Map.empty \<and>
   wal (fst (Txn_Commit [] [] [] (NewTxn [7]))) = wal (NewTxn [7]) \<and>
   wal (Txn_Abort [''key3'', ''key1''] ex_two) = wal ex_two"
proof -
  have e1: "enumerates [''key3'', ''key1''] (writeSet ex_two)"
    by (auto simp add: enumerates_def writeSet_ex_two)
  have e2: "enumerates [''key1'', ''key3''] (writeSet ex_two)"
    by (auto simp add: enumerates_def writeSet_ex_two)
  have ne: "writeSet ex_two \<noteq> Map.empty"
    by (simp add: writeSet_ex_two)
  have fit: "\<forall>k e. writeSet ex_two k = Some e \<longrightarrow> fits 4096 e"
    by (simp add: writeSet_ex_two fits_def)
  have ok: "set (take (length [''key3'', ''key1''] + 2) []) \<subseteq> {IoOk}"
    by simp
  have s: "snd (Txn_Commit [] [''key3'', ''key1''] [''key1'', ''key3''] ex_two) = None"
    using Txn_Commit_all_ok [OF reachable_inv [OF reachable_ex_two] ne e1 e2 fit ok] by simp
  then have c: "Txn_Commit [] [''key3'', ''key1''] [''key1'', ''key3''] ex_two
      = (fst (Txn_Commit [] [''key3'', ''key1''] [''key1'', ''key3''] ex_two), None)"
    by (simp add: prod_eq_iff)
  have e0: "enumerates [] (writeSet (NewTxn [7]))"
    by (simp add: enumerates_def NewTxn_def)
  have w0: "writeSet (NewTxn [7]) = Map.empty"
    by (simp add: NewTxn_def)
  have p: "pending (Action (the (writeSet ex_two ''key3'')))"
    by (simp add: writeSet_ex_two pending_def)
  note th = C4_commit_log_contents [OF e1 e2, of "[]"
        "fst (Txn_Commit [] [''key3'', ''key1''] [''key1'', ''key3''] ex_two)"
        "[''key3'', ''key1'']"]
  note th0 = C4_commit_log_contents [OF e0 e0, of "[]" "NewTxn [7]" "[]"]
  have l: "wal (fst (Txn_Commit [] [''key3'', ''key1''] [''key1'', ''key3''] ex_two))
     = wal ex_two
       @ concat (map (\<lambda>k. wire_RecordLog (the (writeSet ex_two k))) [''key3'', ''key1''])
       @ [5]"
    using th c ne by blast
  have bytes: "wal ex_two
       @ concat (map (\<lambda>k. wire_RecordLog (the (writeSet ex_two k))) [''key3'', ''key1''])
       @ [5]
      = [1, 4, 0, 0, 0, 1, 107, 101, 121, 51, 3, 1, 4, 0, 0, 0, 1, 107, 101, 121, 49, 1, 5]"
    by (simp add: writeSet_ex_two wire_RecordLog_def wire_Record_def be32_def
        bytes_of_string_def pending_def LInsert_def wal_ex_two)
  have l': "wal (fst (Txn_Commit [] [''key3'', ''key1''] [''key1'', ''key3''] ex_two))
     = [1, 4, 0, 0, 0, 1, 107, 101, 121, 51, 3, 1, 4, 0, 0, 0, 1, 107, 101, 121, 49, 1, 5]"
    using l by (simp only: bytes)
  have n: "wal (fst (Txn_Commit [] [] [] (NewTxn [7]))) = wal (NewTxn [7])"
    using th0 w0 by blast
  have a: "wal (Txn_Abort [''key3'', ''key1''] ex_two) = wal ex_two"
    using th by blast
  show ?thesis
    by (intro conjI) (fact e1 e2 ne s p l l' w0 n a)+
qed

text \<open>
  C6. In every state of the engine, for a key whose write-set entry is a pending Delete,
  \<^verbatim>\<open>Insert(k, v)\<close> returns nil and replaces the entry by a pending Update of \<open>k\<close> with the
  value \<open>v\<close>, and changes nothing else; for a key whose write-set entry has any other
  action it returns \<^verbatim>\<open>ErrExist\<close> and changes nothing.
\<close>

theorem C6_insert_on_pending_key:
  assumes "reachable txn" "writeSet txn k = Some e"
  shows "(Action e = LDelete \<longrightarrow>
            Txn_Insert txn k v =
              (txn\<lparr>writeSet := (writeSet txn)
                 (k \<mapsto> \<lparr>Action = LUpdate, Rec = \<lparr>Key = k, Value = v\<rparr>\<rparr>)\<rparr>, None)) \<and>
         (Action e \<noteq> LDelete \<longrightarrow> Txn_Insert txn k v = (txn, Some ErrExist))"
proof -
  have "entry_ok (db txn) k e"
    using assms by (simp add: reachable_inv txn_inv_entry)
  then have key: "Key (Rec e) = k"
    by (simp add: entry_ok_def)
  obtain a r where e: "e = \<lparr>Action = a, Rec = r\<rparr>"
    by (cases e) simp
  obtain k' v' where r: "r = \<lparr>Key = k', Value = v'\<rparr>"
    by (cases r) simp
  show ?thesis
    using assms(2) key by (simp add: Txn_Insert_def clone_id e r)
qed

theorem C6_insert_on_pending_key_witness:
  "reachable ex_delete \<and>
   writeSet ex_delete ''key1''
     = Some \<lparr>Action = LDelete, Rec = \<lparr>Key = ''key1'', Value = []\<rparr>\<rparr> \<and>
   Txn_Insert ex_delete ''key1'' [2] =
     (ex_delete\<lparr>writeSet := (writeSet ex_delete)
        (''key1'' \<mapsto> \<lparr>Action = LUpdate, Rec = \<lparr>Key = ''key1'', Value = [2]\<rparr>\<rparr>)\<rparr>, None) \<and>
   reachable ex_insert \<and>
   writeSet ex_insert ''key1''
     = Some \<lparr>Action = LInsert, Rec = \<lparr>Key = ''key1'', Value = [1]\<rparr>\<rparr> \<and>
   LInsert \<noteq> LDelete \<and>
   Txn_Insert ex_insert ''key1'' [2] = (ex_insert, Some ErrExist)"
proof -
  have d: "writeSet ex_delete ''key1''
     = Some \<lparr>Action = LDelete, Rec = \<lparr>Key = ''key1'', Value = []\<rparr>\<rparr>"
    by (simp add: writeSet_ex_delete)
  have i: "writeSet ex_insert ''key1''
     = Some \<lparr>Action = LInsert, Rec = \<lparr>Key = ''key1'', Value = [1]\<rparr>\<rparr>"
    by (simp add: writeSet_ex_insert)
  show ?thesis
    using C6_insert_on_pending_key [OF reachable_ex_delete d, of "[2]"]
      C6_insert_on_pending_key [OF reachable_ex_insert i, of "[2]"]
      d i reachable_ex_delete reachable_ex_insert
    by (simp add: action_distinct)
qed

text \<open>
  C7. For a key \<open>k\<close> whose write-set entry is a pending Insert, \<^verbatim>\<open>Delete(k)\<close> returns nil
  and removes the entry from the write-set, so that no entry is pending for \<open>k\<close>; the db
  is unchanged. Afterwards \<^verbatim>\<open>Read(k)\<close> returns \<^verbatim>\<open>ErrNotExist\<close> when \<open>k\<close> is absent from the db,
  and a commit that returns nil visits no entry for \<open>k\<close>: the bytes it appends to the
  log are those of the entries of the other keys and the commit marker (nothing at all
  when no other key is pending), and in a state of the engine none of these entries has
  a record with the key \<open>k\<close>.
\<close>

theorem C7_delete_pending_insert:
  assumes "writeSet txn k = Some e" "Action e = LInsert"
  shows "Txn_Delete txn k = (txn\<lparr>writeSet := (writeSet txn)(k := None)\<rparr>, None) \<and>
         writeSet (fst (Txn_Delete txn k)) k = None \<and>
         db (fst (Txn_Delete txn k)) = db txn \<and>
         (db txn k = None \<longrightarrow> Txn_Read (fst (Txn_Delete txn k)) k = Inl ErrNotExist) \<and>
         (enumerates ks1 (writeSet (fst (Txn_Delete txn k))) \<and>
          enumerates ks2 (writeSet (fst (Txn_Delete txn k))) \<and>
          Txn_Commit io ks1 ks2 (fst (Txn_Delete txn k)) = (txn', None) \<longrightarrow>
            k \<notin> set ks1 \<and>
            wal txn' = wal txn @
              (if ks1 = [] then []
               else concat (map (\<lambda>k'. wire_RecordLog (the (writeSet txn k'))) ks1) @ [5]) \<and>
            (reachable txn \<longrightarrow> (\<forall>k' \<in> set ks1. Key (Rec (the (writeSet txn k'))) \<noteq> k)))"
proof -
  let ?t = "txn\<lparr>writeSet := (writeSet txn)(k := None)\<rparr>"
  have d: "Txn_Delete txn k = (?t, None)"
    using assms by (simp add: Txn_Delete_def action_distinct)
  have r: "db txn k = None \<Longrightarrow> Txn_Read ?t k = Inl ErrNotExist"
    by (simp add: Txn_Read_def)
  have c: "k \<notin> set ks1 \<and>
           wal txn' = wal txn @
              (if ks1 = [] then []
               else concat (map (\<lambda>k'. wire_RecordLog (the (writeSet txn k'))) ks1) @ [5]) \<and>
           (reachable txn \<longrightarrow> (\<forall>k' \<in> set ks1. Key (Rec (the (writeSet txn k'))) \<noteq> k))"
    if en1: "enumerates ks1 (writeSet ?t)" and en2: "enumerates ks2 (writeSet ?t)"
      and cm: "Txn_Commit io ks1 ks2 ?t = (txn', None)"
  proof -
    have notin: "k \<notin> set ks1"
      using en1 by (auto simp add: enumerates_def)
    have same: "map (\<lambda>k'. wire_RecordLog (the (writeSet ?t k'))) ks1
                  = map (\<lambda>k'. wire_RecordLog (the (writeSet txn k'))) ks1"
      using map_upd_other [OF notin, of "\<lambda>x. wire_RecordLog (the x)" "writeSet txn"] by simp
    have w: "wal txn' = wal txn @
              (if ks1 = [] then []
               else concat (map (\<lambda>k'. wire_RecordLog (the (writeSet txn k'))) ks1) @ [5])"
    proof (cases "writeSet ?t = Map.empty")
      case True
      then have "ks1 = []"
        using en1 by (simp add: enumerates_def)
      moreover have "txn' = ?t"
        using cm True by (simp add: Txn_Commit_empty)
      ultimately show ?thesis
        by simp
    next
      case False
      have "ks1 \<noteq> []"
      proof
        assume "ks1 = []"
        then have "dom (writeSet ?t) = {}"
          using en1 by (simp add: enumerates_def)
        then show False
          using False by (simp only: dom_eq_empty_conv)
      qed
      moreover have "wal txn' = wal ?t @
          concat (map (\<lambda>k'. wire_RecordLog (the (writeSet ?t k'))) ks1) @ [5]"
        using Txn_Commit_success_log [OF en1 en2 False cm] by (rule conjunct2)
      then have "wal txn' = wal txn @
          concat (map (\<lambda>k'. wire_RecordLog (the (writeSet txn k'))) ks1) @ [5]"
        unfolding same by simp
      ultimately show ?thesis
        by simp
    qed
    have keys: "Key (Rec (the (writeSet txn k'))) \<noteq> k" if "reachable txn" "k' \<in> set ks1" for k'
    proof -
      have "k' \<noteq> k"
        using that(2) notin by auto
      moreover have "k' \<in> dom (writeSet ?t)"
        using that(2) en1 by (simp add: enumerates_def)
      then obtain e' where e': "writeSet txn k' = Some e'"
        by (auto split: if_splits)
      moreover have "Key (Rec e') = k'"
        using txn_inv_entry [OF reachable_inv [OF that(1)] e'] by (simp add: entry_ok_def)
      ultimately show ?thesis
        by simp
    qed
    show ?thesis
      using notin w keys by blast
  qed
  show ?thesis
    using c r by (simp add: d)
qed

theorem C7_delete_pending_insert_witness:
  "writeSet ex_two ''key1''
     = Some \<lparr>Action = LInsert, Rec = \<lparr>Key = ''key1'', Value = [1]\<rparr>\<rparr> \<and>
   Txn_Delete ex_two ''key1'' = (ex_two\<lparr>writeSet := (writeSet ex_two)(''key1'' := None)\<rparr>, None) \<and>
   writeSet (fst (Txn_Delete ex_two ''key1'')) ''key1'' = None \<and>
   db (fst (Txn_Delete ex_two ''key1'')) = db ex_two \<and>
   db ex_two ''key1'' = None \<and>
   Txn_Read (fst (Txn_Delete ex_two ''key1'')) ''key1'' = Inl ErrNotExist \<and>
   enumerates [''key3''] (writeSet (fst (Txn_Delete ex_two ''key1''))) \<and>
   snd (Txn_Commit [] [''key3''] [''key3''] (fst (Txn_Delete ex_two ''key1''))) = None \<and>
   ''key1'' \<notin> set [''key3''] \<and>
   wal (fst (Txn_Commit [] [''key3''] [''key3''] (fst (Txn_Delete ex_two ''key1''))))
     = [1, 4, 0, 0, 0, 1, 107, 101, 121, 51, 3, 5] \<and>
   reachable ex_two \<and>
   Key (Rec (the (writeSet ex_two ''key3''))) \<noteq> ''key1''"
proof -
  let ?t = "fst (Txn_Delete ex_two ''key1'')"
  have i: "writeSet ex_two ''key1''
     = Some \<lparr>Action = LInsert, Rec = \<lparr>Key = ''key1'', Value = [1]\<rparr>\<rparr>"
    by (simp add: writeSet_ex_two)
  have a: "Action \<lparr>Action = LInsert, Rec = \<lparr>Key = ''key1'', Value = [1]\<rparr>\<rparr> = LInsert"
    by simp
  have ws: "writeSet ?t = [''key3'' \<mapsto> \<lparr>Action = LInsert, Rec = \<lparr>Key = ''key3'', Value = [3]\<rparr>\<rparr>]"
    by (auto simp add: Txn_Delete_def writeSet_ex_two action_distinct fun_eq_iff)
  have w: "wal ?t = []"
    by (simp add: Txn_Delete_def writeSet_ex_two action_distinct wal_ex_two)
  have en: "enumerates [''key3''] (writeSet ?t)"
    by (simp add: enumerates_def ws)
  have ne: "writeSet ?t \<noteq> Map.empty"
    by (simp add: ws)
  have fit: "\<forall>k e. writeSet ?t k = Some e \<longrightarrow> fits 4096 e"
    by (simp add: ws fits_def)
  have ok: "set (take (length [''key3''] + 2) []) \<subseteq> {IoOk}"
    by simp
  have inv: "txn_inv ?t"
    by (intro reachable_inv reachable.intros reachable_ex_two)
  have s: "snd (Txn_Commit [] [''key3''] [''key3''] ?t) = None"
    using Txn_Commit_all_ok [OF inv ne en en fit ok] by simp
  then have c: "Txn_Commit [] [''key3''] [''key3''] ?t
      = (fst (Txn_Commit [] [''key3''] [''key3''] ?t), None)"
    by (simp add: prod_eq_iff)
  have k3: "Key (Rec (the (writeSet ex_two ''key3''))) \<noteq> ''key1''"
    by (simp add: writeSet_ex_two)
  note th = C7_delete_pending_insert [OF i a, of "[''key3'']" "[''key3'']" "[]"
        "fst (Txn_Commit [] [''key3''] [''key3''] ?t)"]
  have d1: "Txn_Delete ex_two ''key1''
      = (ex_two\<lparr>writeSet := (writeSet ex_two)(''key1'' := None)\<rparr>, None)"
    using th by blast
  have d2: "writeSet ?t ''key1'' = None"
    using th by blast
  have d3: "db ?t = db ex_two"
    using th by blast
  have d4: "db ex_two ''key1'' = None"
    by (simp add: db_ex_two)
  have r: "Txn_Read ?t ''key1'' = Inl ErrNotExist"
    using th d4 by blast
  have n: "''key1'' \<notin> set [''key3'']"
    by simp
  have l: "wal (fst (Txn_Commit [] [''key3''] [''key3''] ?t)) = wal ex_two @
      (if [''key3''] = [] then []
       else concat (map (\<lambda>k'. wire_RecordLog (the (writeSet ex_two k'))) [''key3'']) @ [5])"
    using th en c by blast
  have bytes: "wal ex_two @
      (if [''key3''] = [] then []
       else concat (map (\<lambda>k'. wire_RecordLog (the (writeSet ex_two k'))) [''key3'']) @ [5])
      = [1, 4, 0, 0, 0, 1, 107, 101, 121, 51, 3, 5]"
    by (simp add: writeSet_ex_two wire_RecordLog_def wire_Record_def be32_def
        bytes_of_string_def pending_def LInsert_def wal_ex_two)
  have l': "wal (fst (Txn_Commit [] [''key3''] [''key3''] ?t))
      = [1, 4, 0, 0, 0, 1, 107, 101, 121, 51, 3, 5]"
    using l by (simp only: bytes)
  show ?thesis
    by (intro conjI) (fact i d1 d2 d3 d4 r en s n l' reachable_ex_two k3)+
qed

text \<open>
  C9. In every state reachable from the initial state by calls of the methods, every
  entry of the write-set is an Insert, an Update or a Delete; so \<^verbatim>\<open>Read\<close> never returns
  the error \<open>unexpected action in writeSet\<close> and \<^verbatim>\<open>Commit\<close> never returns the error
  \<open>unexpected action\<close> of its second loop.
\<close>

theorem C9_writeSet_actions:
  assumes "reachable txn"
  shows "(\<forall>k e. writeSet txn k = Some e \<longrightarrow>
            Action e = LInsert \<or> Action e = LUpdate \<or> Action e = LDelete) \<and>
         (\<forall>k a. Txn_Read txn k \<noteq> Inl (ErrUnexpectedWriteSet a)) \<and>
         (\<forall>io ks1 ks2 a. enumerates ks1 (writeSet txn) \<longrightarrow>
            snd (Txn_Commit io ks1 ks2 txn) \<noteq> Some (ErrUnexpected a))"
proof -
  have inv: "txn_inv txn"
    using assms by (rule reachable_inv)
  have a: "Action e = LInsert \<or> Action e = LUpdate \<or> Action e = LDelete"
    if "writeSet txn k = Some e" for k e
    using txn_inv_entry [OF inv that] by (simp add: entry_ok_def pending_def)
  have "Txn_Read txn k \<noteq> Inl (ErrUnexpectedWriteSet a)" for k a
    using a [of k] by (auto simp add: Txn_Read_def split: option.splits)
  then show ?thesis
    using a Txn_Commit_no_unexpected [OF inv] by blast
qed

theorem C9_writeSet_actions_witness:
  "reachable ex_delete \<and>
   writeSet ex_delete ''key1''
     = Some \<lparr>Action = LDelete, Rec = \<lparr>Key = ''key1'', Value = []\<rparr>\<rparr> \<and>
   Txn_Read ex_delete ''key1'' = Inl ErrNotExist \<and>
   Txn_Read ex_delete ''key1'' \<noteq> Inl (ErrUnexpectedWriteSet 2) \<and>
   enumerates [''key1''] (writeSet ex_delete) \<and>
   snd (Txn_Commit [] [''key1''] [''key1''] ex_delete) \<noteq> Some (ErrUnexpected 2)"
proof -
  have d: "writeSet ex_delete ''key1''
     = Some \<lparr>Action = LDelete, Rec = \<lparr>Key = ''key1'', Value = []\<rparr>\<rparr>"
    by (simp add: writeSet_ex_delete)
  have en: "enumerates [''key1''] (writeSet ex_delete)"
    by (simp add: enumerates_def writeSet_ex_delete)
  have r: "Txn_Read ex_delete ''key1'' = Inl ErrNotExist"
    by (simp add: Txn_Read_def writeSet_ex_delete)
  show ?thesis
    using C9_writeSet_actions [OF reachable_ex_delete] d en r reachable_ex_delete
    by simp
qed

text \<open>
  C10. In every state reachable from the initial state by calls of the methods, every
  entry of the write-set is stored under the key of its record and every record of the
  db under its own key; a pending Insert is for a key absent from the db, and a pending
  Update or Delete is for a key present in the db (whose record carries that key, so the
  Update path of \<^verbatim>\<open>Commit\<close> finds a record to overwrite).
\<close>

theorem C10_writeSet_db_consistent:
  assumes "reachable txn"
  shows "(\<forall>k e. writeSet txn k = Some e \<longrightarrow>
            Key (Rec e) = k \<and>
            (Action e = LInsert \<longrightarrow> db txn k = None) \<and>
            (Action e = LUpdate \<or> Action e = LDelete \<longrightarrow>
               (\<exists>r. db txn k = Some r \<and> Key r = k))) \<and>
         (\<forall>k r. db txn k = Some r \<longrightarrow> Key r = k)"
proof -
  have inv: "txn_inv txn"
    using assms by (rule reachable_inv)
  have d: "Key r = k" if "db txn k = Some r" for k r
    using inv that by (rule txn_inv_db)
  have e: "Key (Rec e) = k \<and>
            (Action e = LInsert \<longrightarrow> db txn k = None) \<and>
            (Action e = LUpdate \<or> Action e = LDelete \<longrightarrow>
               (\<exists>r. db txn k = Some r \<and> Key r = k))"
    if "writeSet txn k = Some e" for k e
  proof -
    have ok: "entry_ok (db txn) k e"
      using inv that by (rule txn_inv_entry)
    have "\<exists>r. db txn k = Some r \<and> Key r = k" if ud: "Action e = LUpdate \<or> Action e = LDelete"
    proof -
      have "db txn k \<noteq> None"
        using ok ud by (simp add: entry_ok_def)
      then obtain r where "db txn k = Some r"
        by blast
      then show ?thesis
        using d by simp
    qed
    then show ?thesis
      using ok by (simp add: entry_ok_def)
  qed
  show ?thesis
    using d e by blast
qed

theorem C10_writeSet_db_consistent_witness:
  "reachable ex_delete \<and>
   writeSet ex_delete ''key1''
     = Some \<lparr>Action = LDelete, Rec = \<lparr>Key = ''key1'', Value = []\<rparr>\<rparr> \<and>
   db ex_delete ''key1'' = Some \<lparr>Key = ''key1'', Value = [1]\<rparr> \<and>
   (\<exists>r. db ex_delete ''key1'' = Some r \<and> Key r = ''key1'') \<and>
   reachable ex_insert \<and>
   writeSet ex_insert ''key1''
     = Some \<lparr>Action = LInsert, Rec = \<lparr>Key = ''key1'', Value = [1]\<rparr>\<rparr> \<and>
   db ex_insert ''key1'' = None"
proof -
  have d: "writeSet ex_delete ''key1''
     = Some \<lparr>Action = LDelete, Rec = \<lparr>Key = ''key1'', Value = []\<rparr>\<rparr>"
    by (simp add: writeSet_ex_delete)
  have i: "writeSet ex_insert ''key1''
     = Some \<lparr>Action = LInsert, Rec = \<lparr>Key = ''key1'', Value = [1]\<rparr>\<rparr>"
    by (simp add: writeSet_ex_insert)
  show ?thesis
    using C10_writeSet_db_consistent [OF reachable_ex_delete]
      C10_writeSet_db_consistent [OF reachable_ex_insert]
      d i reachable_ex_delete reachable_ex_insert
    by (simp add: db_ex_delete db_ex_insert)
qed

end
